theory Spec2Isabelle
  imports Complex_Main "HOL-Library.Word"
begin

section \<open>The lattice model\<close>

text \<open>
  The transformations of \<^verbatim>\<open>tbplas/builder/factory.py\<close> work on a primitive cell:
  lattice vectors, a list of orbitals and a list of hopping terms. Python's \<^verbatim>\<open>float\<close>
  and numpy's \<^verbatim>\<open>float64\<close> are idealised as \<^typ>\<open>real\<close> (exact arithmetic, no
  rounding), so where the code takes the floor of a coordinate that lies at the face of a
  cell, the rounded value can fall on the other side of the face than the exact one; Python's unbounded integers are \<^typ>\<open>int\<close>; orbital indices, which the
  code uses to subscript lists, are \<^typ>\<open>nat\<close>. A hopping's \<^verbatim>\<open>index\<close> is the
  5-tuple \<^verbatim>\<open>(ra, rb, rc, orb_i, orb_j)\<close> the source reads with \<^verbatim>\<open>index[0..4]\<close>.
\<close>

type_synonym vec3 = "real \<times> real \<times> real"
type_synonym mat3 = "vec3 \<times> vec3 \<times> vec3"

record orbital =
  position :: vec3
  energy :: real

record hopping =
  index :: "int \<times> int \<times> int \<times> nat \<times> nat"
  energy :: complex

record PrimitiveCell =
  lat_vec :: mat3
  orbital_list :: "orbital list"
  hopping_list :: "hopping list"
  extended :: real

datatype error = ValueError | CoordLenError | LatVecError | LinAlgError | IndexError | KeyError
  | OverflowError

definition hop_rn :: "hopping \<Rightarrow> int list" where
  "hop_rn hop = (case index hop of (ra, rb, rc, i, j) \<Rightarrow> [ra, rb, rc])"

definition hop_i :: "hopping \<Rightarrow> nat" where
  "hop_i hop = (case index hop of (ra, rb, rc, i, j) \<Rightarrow> i)"

definition hop_j :: "hopping \<Rightarrow> nat" where
  "hop_j hop = (case index hop of (ra, rb, rc, i, j) \<Rightarrow> j)"

definition mk_hop :: "int \<times> int \<times> int \<Rightarrow> nat \<Rightarrow> nat \<Rightarrow> complex \<Rightarrow> hopping" where
  "mk_hop rn i j e = (case rn of (ra, rb, rc) \<Rightarrow> \<lparr>index = (ra, rb, rc, i, j), energy = e\<rparr>)"

definition num_orb :: "PrimitiveCell \<Rightarrow> nat" where
  "num_orb prim_cell = length (orbital_list prim_cell)"

section \<open>Boundary applier: \<^verbatim>\<open>apply_pbc\<close>\<close>

text \<open>
  The inner loop over the three axes, with its \<^verbatim>\<open>break\<close>: the first axis that is not
  periodic and has a nonzero cell offset settles \<^verbatim>\<open>to_keep = False\<close>.
\<close>

fun to_keep :: "bool list \<Rightarrow> int list \<Rightarrow> bool" where
  "to_keep (p # ps) (r # rs) = (if \<not> p \<and> r \<noteq> 0 then False else to_keep ps rs)"
| "to_keep _ _ = True"

text \<open>The outer loop: \<^verbatim>\<open>hop_to_keep\<close> is the accumulator the source appends to.\<close>

fun hop_to_keep :: "bool list \<Rightarrow> hopping list \<Rightarrow> hopping list \<Rightarrow> hopping list" where
  "hop_to_keep pbc [] acc = acc"
| "hop_to_keep pbc (hop # hops) acc =
     hop_to_keep pbc hops (if to_keep pbc (hop_rn hop) then acc @ [hop] else acc)"

definition apply_pbc :: "PrimitiveCell \<Rightarrow> bool list \<Rightarrow> error + PrimitiveCell" where
  "apply_pbc prim_cell pbc =
     (if length pbc \<noteq> 3 then Inl ValueError
      else Inr (prim_cell\<lparr>hopping_list := hop_to_keep pbc (hopping_list prim_cell) []\<rparr>))"

text \<open>
  The contract in the spec's words: a hopping survives when its cell offset is zero along
  every axis that is not periodic.
\<close>

definition offset_allowed :: "bool list \<Rightarrow> hopping \<Rightarrow> bool" where
  "offset_allowed pbc hop = (\<forall>ax < 3. \<not> pbc ! ax \<longrightarrow> hop_rn hop ! ax = 0)"

section \<open>Cell trimmer: \<^verbatim>\<open>trim_prim_cell\<close>\<close>

text \<open>
  Modelled from the spec: \<^verbatim>\<open>PrimitiveCell.remove_orbital\<close>, a method of
  \<^verbatim>\<open>tbplas/builder/primitive.py\<close>, which is not among the sources. The spec's
  Cell Trimmer removes an orbital together with all hoppings touching it, and renumbers the
  remaining orbitals densely, remapping the surviving hoppings' indices: after the removal of
  orbital \<open>orb_i\<close> every larger index has moved down by one. An index outside the
  orbital list is an error, as for a Python list.
\<close>

definition shift_index :: "nat \<Rightarrow> nat \<Rightarrow> nat" where
  "shift_index orb_i k = (if orb_i < k then k - 1 else k)"

definition shift_hopping :: "nat \<Rightarrow> hopping \<Rightarrow> hopping" where
  "shift_hopping orb_i hop =
     (case index hop of (ra, rb, rc, i, j) \<Rightarrow>
        hop\<lparr>index := (ra, rb, rc, shift_index orb_i i, shift_index orb_i j)\<rparr>)"

definition remove_orbital :: "PrimitiveCell \<Rightarrow> nat \<Rightarrow> error + PrimitiveCell" where
  "remove_orbital prim_cell orb_i =
     (if num_orb prim_cell \<le> orb_i then Inl IndexError
      else Inr (prim_cell
        \<lparr>orbital_list := take orb_i (orbital_list prim_cell) @ drop (Suc orb_i) (orbital_list prim_cell),
         hopping_list := map (shift_hopping orb_i)
            (filter (\<lambda>hop. hop_i hop \<noteq> orb_i \<and> hop_j hop \<noteq> orb_i) (hopping_list prim_cell))\<rparr>))"

text \<open>
  The counting loop. \<^verbatim>\<open>hop_count\<close> is a numpy array of \<^verbatim>\<open>int32\<close>: each
  \<^verbatim>\<open>+= 1\<close> wraps at 32 bits, and a subscript beyond the array raises
  \<^verbatim>\<open>IndexError\<close>.
\<close>

fun count_hops :: "hopping list \<Rightarrow> 32 word list \<Rightarrow> error + 32 word list" where
  "count_hops [] hop_count = Inr hop_count"
| "count_hops (hop # hops) hop_count =
     (if length hop_count \<le> hop_i hop then Inl IndexError
      else let hop_count1 = hop_count[hop_i hop := hop_count ! hop_i hop + 1] in
        if length hop_count1 \<le> hop_j hop then Inl IndexError
        else count_hops hops (hop_count1[hop_j hop := hop_count1 ! hop_j hop + 1]))"

text \<open>
  \<^verbatim>\<open>[i_o for i_o, count in enumerate(hop_count) if count <= 1]\<close>, the comparison
  being the signed one of \<^verbatim>\<open>int32\<close>.
\<close>

definition orb_id_trim :: "32 word list \<Rightarrow> nat list" where
  "orb_id_trim hop_count = map fst (filter (\<lambda>(i_o, count). sint count \<le> 1) (enumerate 0 hop_count))"

text \<open>
  The removal loop \<^verbatim>\<open>for i, orb_id in enumerate(orb_id_trim)\<close>, with its compensating
  offset \<^verbatim>\<open>orb_id - i\<close>. The list is sorted and without duplicates, so
  \<open>i \<le> orb_id\<close> at every iteration and the subtraction never goes below zero.
\<close>

fun remove_loop :: "nat \<Rightarrow> nat list \<Rightarrow> PrimitiveCell \<Rightarrow> error + PrimitiveCell" where
  "remove_loop i [] prim_cell = Inr prim_cell"
| "remove_loop i (orb_id # rest) prim_cell =
     (case remove_orbital prim_cell (orb_id - i) of
        Inl e \<Rightarrow> Inl e
      | Inr prim_cell' \<Rightarrow> remove_loop (Suc i) rest prim_cell')"

definition trim_prim_cell :: "PrimitiveCell \<Rightarrow> error + PrimitiveCell" where
  "trim_prim_cell prim_cell =
     (case count_hops (hopping_list prim_cell) (replicate (num_orb prim_cell) 0) of
        Inl e \<Rightarrow> Inl e
      | Inr hop_count \<Rightarrow> remove_loop 0 (sort (orb_id_trim hop_count)) prim_cell)"

text \<open>
  The notions of the spec: the combined hopping-endpoint degree of an orbital (both endpoint
  roles, over all hoppings), the invariant that every hopping names existing orbitals, and
  the dense renumbering that skips the orbitals of degree at most one.
\<close>

definition degree :: "PrimitiveCell \<Rightarrow> nat \<Rightarrow> nat" where
  "degree prim_cell k =
     length (filter (\<lambda>hop. hop_i hop = k) (hopping_list prim_cell))
     + length (filter (\<lambda>hop. hop_j hop = k) (hopping_list prim_cell))"

definition valid_cell :: "PrimitiveCell \<Rightarrow> bool" where
  "valid_cell prim_cell =
     (\<forall>hop \<in> set (hopping_list prim_cell).
        hop_i hop < num_orb prim_cell \<and> hop_j hop < num_orb prim_cell)"

definition dangling_set :: "PrimitiveCell \<Rightarrow> nat set" where
  "dangling_set prim_cell = {k. k < num_orb prim_cell \<and> degree prim_cell k \<le> 1}"

text \<open>
  The one-pass design the spec prefers: given the set \<open>S\<close> of orbitals to remove, an
  explicit old-to-new index map (\<open>rank S k\<close> is the number of surviving orbitals below
  \<open>k\<close>), applied once to the hoppings that touch no removed orbital.
\<close>

definition rank :: "nat set \<Rightarrow> nat \<Rightarrow> nat" where
  "rank S k = length (filter (\<lambda>t. t \<notin> S) [0..<k])"

definition rank_hopping :: "nat set \<Rightarrow> hopping \<Rightarrow> hopping" where
  "rank_hopping S hop =
     (case index hop of (ra, rb, rc, i, j) \<Rightarrow> hop\<lparr>index := (ra, rb, rc, rank S i, rank S j)\<rparr>)"

definition remove_orbitals :: "nat set \<Rightarrow> PrimitiveCell \<Rightarrow> PrimitiveCell" where
  "remove_orbitals S prim_cell = prim_cell
     \<lparr>orbital_list := nths (orbital_list prim_cell) (- S),
      hopping_list := map (rank_hopping S)
         (filter (\<lambda>hop. hop_i hop \<notin> S \<and> hop_j hop \<notin> S) (hopping_list prim_cell))\<rparr>"

section \<open>The collaborating operations of the lattice model\<close>

text \<open>
  Modelled from the spec: the constructor of \<^verbatim>\<open>PrimitiveCell\<close>, its methods
  \<^verbatim>\<open>add_orbital\<close> and \<^verbatim>\<open>add_hopping\<close>, the helper
  \<^verbatim>\<open>correct_coord\<close> (all of \<^verbatim>\<open>tbplas/builder/primitive.py\<close>) and the
  constant \<^verbatim>\<open>consts.NM\<close> (\<^verbatim>\<open>tbplas/builder/constants.py\<close>); neither file is
  among the sources. A model is created empty from lattice vectors given in a length unit,
  and populated by appending orbitals and hoppings; hoppings with the same offset and
  endpoints coexist, there is no deduplication. \<^verbatim>\<open>NM\<close> is the model's own unit, so that
  the vectors passed with it are stored as they are. \<^verbatim>\<open>correct_coord\<close> completes a
  vector of length 2 with the given item and refuses every length but 2 and 3. The cached
  arrays (\<^verbatim>\<open>orb_pos\<close>, \<^verbatim>\<open>orb_eng\<close>, \<^verbatim>\<open>hop_ind\<close>, \<^verbatim>\<open>hop_eng\<close>) are
  functions of the lists: the source calls \<^verbatim>\<open>sync_array\<close> before it reads them.
\<close>

definition NM :: real where
  "NM = 1"

definition scale :: "vec3 \<Rightarrow> real \<Rightarrow> vec3" where
  "scale v s = (case v of (x, y, z) \<Rightarrow> (x * s, y * s, z * s))"

definition PrimitiveCell_init :: "mat3 \<Rightarrow> real \<Rightarrow> PrimitiveCell" where
  "PrimitiveCell_init lv unit = (case lv of (a, b, c) \<Rightarrow>
     \<lparr>lat_vec = (scale a unit, scale b unit, scale c unit),
      orbital_list = [], hopping_list = [], extended = 1\<rparr>)"

definition add_orbital :: "PrimitiveCell \<Rightarrow> vec3 \<Rightarrow> real \<Rightarrow> PrimitiveCell" where
  "add_orbital cell pos e =
     cell\<lparr>orbital_list := orbital_list cell @ [\<lparr>position = pos, energy = e\<rparr>]\<rparr>"

definition add_hopping :: "PrimitiveCell \<Rightarrow> int \<times> int \<times> int \<Rightarrow> nat \<Rightarrow> nat \<Rightarrow> complex \<Rightarrow> PrimitiveCell" where
  "add_hopping cell rn orb_i orb_j e = (case rn of (ra, rb, rc) \<Rightarrow>
     cell\<lparr>hopping_list := hopping_list cell @ [\<lparr>index = (ra, rb, rc, orb_i, orb_j), energy = e\<rparr>]\<rparr>)"

definition correct_coord :: "int list \<Rightarrow> int \<Rightarrow> error + int list" where
  "correct_coord coord complete_item =
     (if length coord = 2 then Inr (coord @ [complete_item])
      else if length coord = 3 then Inr coord
      else Inl CoordLenError)"

definition orb_pos :: "PrimitiveCell \<Rightarrow> vec3 list" where
  "orb_pos cell = map position (orbital_list cell)"

definition orb_eng :: "PrimitiveCell \<Rightarrow> real list" where
  "orb_eng cell = map orbital.energy (orbital_list cell)"

definition hop_ind :: "PrimitiveCell \<Rightarrow> (int \<times> int \<times> int \<times> nat \<times> nat) list" where
  "hop_ind cell = map index (hopping_list cell)"

definition hop_eng :: "PrimitiveCell \<Rightarrow> complex list" where
  "hop_eng cell = map hopping.energy (hopping_list cell)"

text \<open>Python's \<^verbatim>\<open>range(n)\<close> and \<^verbatim>\<open>range(lo, hi + 1)\<close> over the integers.\<close>

definition py_range :: "int \<Rightarrow> int list" where
  "py_range n = [0..n - 1]"

section \<open>The replica bookkeeping shared by the extender and the reshaper\<close>

text \<open>
  Both functions keep the list \<^verbatim>\<open>orb_id_pc\<close> of the replica tuples
  \<^verbatim>\<open>(i_a, i_b, i_c, i_o)\<close> in the order of their creation, the dictionary
  \<^verbatim>\<open>orb_id_sc\<close> from a tuple to its new index, the counter \<^verbatim>\<open>id_sc\<close> and the cell
  under construction. \<open>add_replica\<close> is the body the two loops share: append the tuple,
  store its index, count, add the orbital.
\<close>

type_synonym id_pc = "int \<times> int \<times> int \<times> nat"

record replicas =
  orb_id_pc :: "id_pc list"
  orb_id_sc :: "id_pc \<rightharpoonup> nat"
  id_sc :: nat
  cell :: PrimitiveCell

definition add_replica :: "id_pc \<Rightarrow> vec3 \<Rightarrow> real \<Rightarrow> replicas \<Rightarrow> replicas" where
  "add_replica id_pc pos e st =
     \<lparr>orb_id_pc = orb_id_pc st @ [id_pc],
      orb_id_sc = (orb_id_sc st)(id_pc \<mapsto> id_sc st),
      id_sc = id_sc st + 1,
      cell = add_orbital (cell st) pos e\<rparr>"

definition no_replicas :: "PrimitiveCell \<Rightarrow> replicas" where
  "no_replicas cell0 = \<lparr>orb_id_pc = [], orb_id_sc = Map.empty, id_sc = 0, cell = cell0\<rparr>"

text \<open>
  The bookkeeping in closed form: after the tuples \<open>pcs\<close> have been added to a cell
  \<open>cell0\<close>, the tuple at position \<open>k\<close> has index \<open>k\<close>, and the cell has gained
  one orbital per tuple, in the same order.
\<close>

definition replicas_of :: "PrimitiveCell \<Rightarrow> (id_pc \<Rightarrow> orbital) \<Rightarrow> id_pc list \<Rightarrow> replicas" where
  "replicas_of cell0 orb pcs =
     \<lparr>orb_id_pc = pcs,
      orb_id_sc = map_of (zip pcs [0..<length pcs]),
      id_sc = length pcs,
      cell = cell0\<lparr>orbital_list := orbital_list cell0 @ map orb pcs\<rparr>\<rparr>"

section \<open>Cell extender: \<^verbatim>\<open>extend_prim_cell\<close>\<close>

text \<open>The validated dimension vector \<^verbatim>\<open>dim\<close> is written \<open>dims\<close> throughout.\<close>

definition pos_ext :: "int list \<Rightarrow> int \<times> int \<times> int \<Rightarrow> vec3 \<Rightarrow> vec3" where
  "pos_ext dims grid pos = (case (grid, pos) of ((i_a, i_b, i_c), (x, y, z)) \<Rightarrow>
     ((x + of_int i_a) / of_int (dims ! 0),
      (y + of_int i_b) / of_int (dims ! 1),
      (z + of_int i_c) / of_int (dims ! 2)))"

text \<open>The four nested loops that add the orbitals.\<close>

definition extend_orbitals :: "PrimitiveCell \<Rightarrow> int list \<Rightarrow> replicas \<Rightarrow> replicas" where
  "extend_orbitals prim_cell dims =
     fold (\<lambda>i_a.
       fold (\<lambda>i_b.
         fold (\<lambda>i_c.
           fold (\<lambda>(i_o, orbital).
                  add_replica (i_a, i_b, i_c, i_o)
                    (pos_ext dims (i_a, i_b, i_c) (position orbital)) (orbital.energy orbital))
             (enumerate 0 (orbital_list prim_cell)))
           (py_range (dims ! 2)))
         (py_range (dims ! 1)))
       (py_range (dims ! 0))"

definition wrap_pbc :: "int \<Rightarrow> int \<Rightarrow> int \<times> int" where
  "wrap_pbc ji ni = (ji mod ni, ji div ni)"

text \<open>
  The inner loop over the hoppings of the primitive cell, for one orbital \<open>id_sc_i\<close> of
  the extended cell. The dictionary lookup raises \<^verbatim>\<open>KeyError\<close> on a missing key.
\<close>

fun extend_hop_loop ::
  "int list \<Rightarrow> (id_pc \<rightharpoonup> nat) \<Rightarrow> nat \<Rightarrow> id_pc \<Rightarrow> hopping list \<Rightarrow> PrimitiveCell \<Rightarrow> error + PrimitiveCell" where
  "extend_hop_loop dims sc id_sc_i id_pc_i [] extend_cell = Inr extend_cell"
| "extend_hop_loop dims sc id_sc_i id_pc_i (hopping # rest) extend_cell =
     (case (id_pc_i, index hopping) of ((i_a, i_b, i_c, i_o), (ra, rb, rc, hi, hj)) \<Rightarrow>
        if i_o = hi then
          (case (wrap_pbc (i_a + ra) (dims ! 0), wrap_pbc (i_b + rb) (dims ! 1),
                 wrap_pbc (i_c + rc) (dims ! 2)) of
             ((ja, na), (jb, nb), (jc, nc)) \<Rightarrow>
               (case sc (ja, jb, jc, hj) of
                  None \<Rightarrow> Inl KeyError
                | Some id_sc_j \<Rightarrow>
                    extend_hop_loop dims sc id_sc_i id_pc_i rest
                      (add_hopping extend_cell (na, nb, nc) id_sc_i id_sc_j (hopping.energy hopping))))
        else extend_hop_loop dims sc id_sc_i id_pc_i rest extend_cell)"

text \<open>The outer loop \<^verbatim>\<open>for id_sc_i in range(extend_cell.num_orb)\<close>.\<close>

fun extend_orb_loop ::
  "int list \<Rightarrow> id_pc list \<Rightarrow> (id_pc \<rightharpoonup> nat) \<Rightarrow> hopping list \<Rightarrow> nat list \<Rightarrow> PrimitiveCell \<Rightarrow> error + PrimitiveCell" where
  "extend_orb_loop dims pcs sc hops [] extend_cell = Inr extend_cell"
| "extend_orb_loop dims pcs sc hops (id_sc_i # rest) extend_cell =
     (if length pcs \<le> id_sc_i then Inl IndexError
      else case extend_hop_loop dims sc id_sc_i (pcs ! id_sc_i) hops extend_cell of
             Inl e \<Rightarrow> Inl e
           | Inr extend_cell' \<Rightarrow> extend_orb_loop dims pcs sc hops rest extend_cell')"

definition extend_lat_vec :: "mat3 \<Rightarrow> int list \<Rightarrow> mat3" where
  "extend_lat_vec lv dims = (case lv of (a, b, c) \<Rightarrow>
     (scale a (of_int (dims ! 0)), scale b (of_int (dims ! 1)), scale c (of_int (dims ! 2))))"

definition extend_start :: "PrimitiveCell \<Rightarrow> int list \<Rightarrow> PrimitiveCell" where
  "extend_start prim_cell dims =
     (let extend_cell = PrimitiveCell_init (extend_lat_vec (lat_vec prim_cell) dims) NM
      in extend_cell\<lparr>extended := extended extend_cell * of_int (prod_list dims)\<rparr>)"

definition extend_prim_cell :: "PrimitiveCell \<Rightarrow> int list \<Rightarrow> error + PrimitiveCell" where
  "extend_prim_cell prim_cell dim0 =
     (case correct_coord dim0 1 of
        Inl e \<Rightarrow> Inl e
      | Inr dims \<Rightarrow>
          if list_ex (\<lambda>d. d < 1) dims then Inl ValueError
          else
            let st = extend_orbitals prim_cell dims (no_replicas (extend_start prim_cell dims))
            in extend_orb_loop dims (orb_id_pc st) (orb_id_sc st) (hopping_list prim_cell)
                 [0..<num_orb (cell st)] (cell st))"

text \<open>
  The replicas in the words of the spec: the grid cells in lexicographic order, each with
  every original orbital; the replica of an orbital; the dense index of a replica tuple; the
  hopping the extender derives from an original hopping at a grid cell.
\<close>

definition grid_ids :: "int list \<Rightarrow> nat \<Rightarrow> id_pc list" where
  "grid_ids dims n = [(i_a, i_b, i_c, i_o).
      i_a \<leftarrow> py_range (dims ! 0), i_b \<leftarrow> py_range (dims ! 1), i_c \<leftarrow> py_range (dims ! 2),
      i_o \<leftarrow> [0..<n]]"

definition replica_orbital :: "PrimitiveCell \<Rightarrow> int list \<Rightarrow> id_pc \<Rightarrow> orbital" where
  "replica_orbital prim_cell dims rid = (case rid of (i_a, i_b, i_c, i_o) \<Rightarrow>
     \<lparr>position = pos_ext dims (i_a, i_b, i_c) (position (orbital_list prim_cell ! i_o)),
      energy = orbital.energy (orbital_list prim_cell ! i_o)\<rparr>)"

definition replica_index :: "int list \<Rightarrow> nat \<Rightarrow> id_pc \<Rightarrow> nat" where
  "replica_index dims n rid = (case rid of (i_a, i_b, i_c, i_o) \<Rightarrow>
     nat ((i_a * dims ! 1 + i_b) * dims ! 2 + i_c) * n + i_o)"

definition rid_orb :: "id_pc \<Rightarrow> nat" where
  "rid_orb rid = (case rid of (i_a, i_b, i_c, i_o) \<Rightarrow> i_o)"

definition hop_dest :: "int list \<Rightarrow> id_pc \<Rightarrow> hopping \<Rightarrow> id_pc" where
  "hop_dest dims rid hop =
     (case (rid, index hop) of ((i_a, i_b, i_c, i_o), (ra, rb, rc, hi, hj)) \<Rightarrow>
        ((i_a + ra) mod dims ! 0, (i_b + rb) mod dims ! 1, (i_c + rc) mod dims ! 2, hj))"

definition replica_hopping :: "int list \<Rightarrow> nat \<Rightarrow> id_pc \<Rightarrow> hopping \<Rightarrow> hopping" where
  "replica_hopping dims n rid hop =
     (case (rid, index hop) of ((i_a, i_b, i_c, i_o), (ra, rb, rc, hi, hj)) \<Rightarrow>
        \<lparr>index = ((i_a + ra) div dims ! 0, (i_b + rb) div dims ! 1, (i_c + rc) div dims ! 2,
                  replica_index dims n rid, replica_index dims n (hop_dest dims rid hop)),
         energy = hopping.energy hop\<rparr>)"

definition extend_hoppings :: "PrimitiveCell \<Rightarrow> int list \<Rightarrow> hopping list" where
  "extend_hoppings prim_cell dims =
     [replica_hopping dims (num_orb prim_cell) rid hop.
        rid \<leftarrow> grid_ids dims (num_orb prim_cell), hop \<leftarrow> hopping_list prim_cell,
        hop_i hop = rid_orb rid]"

section \<open>Cell reshaper: \<^verbatim>\<open>reshape_prim_cell\<close>\<close>

text \<open>
  The arguments \<^verbatim>\<open>lat_frac\<close> and \<^verbatim>\<open>origin\<close> arrive as arrays of any shape (lists of
  rows, and a list); the source checks the shapes before anything else. Past the checks they
  are a \<^typ>\<open>mat3\<close> and a \<^typ>\<open>vec3\<close>.
\<close>

definition vec3_of :: "real list \<Rightarrow> vec3 option" where
  "vec3_of xs = (case xs of [x, y, z] \<Rightarrow> Some (x, y, z) | _ \<Rightarrow> None)"

definition mat3_of :: "real list list \<Rightarrow> mat3 option" where
  "mat3_of rows = (case rows of
       [a, b, c] \<Rightarrow> (case (vec3_of a, vec3_of b, vec3_of c) of
                      (Some u, Some v, Some w) \<Rightarrow> Some (u, v, w)
                    | _ \<Rightarrow> None)
     | _ \<Rightarrow> None)"

text \<open>
  numpy's arithmetic on rows: sum, difference, a scalar added to every component, a row
  vector times a matrix (\<^verbatim>\<open>np.matmul\<close>), the Euclidean norm (\<^verbatim>\<open>np.linalg.norm\<close>), and
  the inverse (\<^verbatim>\<open>np.linalg.inv\<close>), which is numpy's and not the repository's: the exact
  inverse, by the adjugate, and \<^verbatim>\<open>LinAlgError\<close> on a singular matrix.
\<close>

definition vadd :: "vec3 \<Rightarrow> vec3 \<Rightarrow> vec3" where
  "vadd u v = (case (u, v) of ((x, y, z), (x', y', z')) \<Rightarrow> (x + x', y + y', z + z'))"

definition vsub :: "vec3 \<Rightarrow> vec3 \<Rightarrow> vec3" where
  "vsub u v = (case (u, v) of ((x, y, z), (x', y', z')) \<Rightarrow> (x - x', y - y', z - z'))"

definition vshift :: "vec3 \<Rightarrow> real \<Rightarrow> vec3" where
  "vshift u s = (case u of (x, y, z) \<Rightarrow> (x + s, y + s, z + s))"

definition of_int3 :: "int \<times> int \<times> int \<Rightarrow> vec3" where
  "of_int3 rn = (case rn of (i_a, i_b, i_c) \<Rightarrow> (of_int i_a, of_int i_b, of_int i_c))"

definition matmul :: "vec3 \<Rightarrow> mat3 \<Rightarrow> vec3" where
  "matmul v m = (case (v, m) of ((x, y, z), ((a1, a2, a3), (b1, b2, b3), (c1, c2, c3))) \<Rightarrow>
     (x * a1 + y * b1 + z * c1, x * a2 + y * b2 + z * c2, x * a3 + y * b3 + z * c3))"

definition norm3 :: "vec3 \<Rightarrow> real" where
  "norm3 v = (case v of (x, y, z) \<Rightarrow> sqrt (x * x + y * y + z * z))"

definition det3 :: "mat3 \<Rightarrow> real" where
  "det3 m = (case m of ((a, b, c), (d, e, f), (g, h, i)) \<Rightarrow>
     a * (e * i - f * h) - b * (d * i - f * g) + c * (d * h - e * g))"

definition inv3 :: "mat3 \<Rightarrow> mat3 option" where
  "inv3 m = (case m of ((a, b, c), (d, e, f), (g, h, i)) \<Rightarrow>
     if det3 m = 0 then None
     else Some (((e * i - f * h) / det3 m, (c * h - b * i) / det3 m, (b * f - c * e) / det3 m),
                ((f * g - d * i) / det3 m, (a * i - c * g) / det3 m, (c * d - a * f) / det3 m),
                ((d * h - e * g) / det3 m, (b * g - a * h) / det3 m, (a * e - b * d) / det3 m)))"

definition get_cell_index :: "vec3 \<Rightarrow> int \<times> int \<times> int" where
  "get_cell_index x = (case x of (x0, x1, x2) \<Rightarrow> (\<lfloor>x0\<rfloor>, \<lfloor>x1\<rfloor>, \<lfloor>x2\<rfloor>))"

definition lat_cart :: "mat3 \<Rightarrow> mat3 \<Rightarrow> mat3" where
  "lat_cart lat_frac lv = (case lat_frac of (r0, r1, r2) \<Rightarrow>
     (matmul r0 lv, matmul r1 lv, matmul r2 lv))"

text \<open>
  The search range. \<^verbatim>\<open>sum_vec\<close> is the sum of the rows of \<^verbatim>\<open>lat_frac\<close> minus row
  \<^verbatim>\<open>i_dim\<close>; the double loop lowers each axis' lower bound to its floor and raises the
  upper bound to its ceiling, starting from zero.
\<close>

definition mat_row :: "mat3 \<Rightarrow> nat \<Rightarrow> vec3" where
  "mat_row m i_dim = (case m of (r0, r1, r2) \<Rightarrow> if i_dim = 0 then r0 else if i_dim = 1 then r1 else r2)"

definition sum_vec :: "mat3 \<Rightarrow> nat \<Rightarrow> vec3" where
  "sum_vec lat_frac i_dim = (case lat_frac of (r0, r1, r2) \<Rightarrow>
     vsub (vadd (vadd r0 r1) r2) (mat_row lat_frac i_dim))"

type_synonym rn_range = "(int \<times> int) \<times> (int \<times> int) \<times> (int \<times> int)"

definition rn_range_step :: "mat3 \<Rightarrow> nat \<Rightarrow> rn_range \<Rightarrow> rn_range" where
  "rn_range_step lat_frac i_dim rng =
     (case (sum_vec lat_frac i_dim, rng) of ((s0, s1, s2), ((lo0, hi0), (lo1, hi1), (lo2, hi2))) \<Rightarrow>
        ((min lo0 \<lfloor>s0\<rfloor>, max hi0 \<lceil>s0\<rceil>),
         (min lo1 \<lfloor>s1\<rfloor>, max hi1 \<lceil>s1\<rceil>),
         (min lo2 \<lfloor>s2\<rfloor>, max hi2 \<lceil>s2\<rceil>)))"

definition rn_range_loop :: "mat3 \<Rightarrow> rn_range" where
  "rn_range_loop lat_frac = fold (rn_range_step lat_frac) [0, 1, 2] ((0, 0), (0, 0), (0, 0))"

text \<open>
  \<^verbatim>\<open>rn_range\<close> is an array of \<^verbatim>\<open>int32\<close>. A bound that does not fit cannot be stored
  (\<^verbatim>\<open>OverflowError\<close>); as the lower bounds only fall from zero and the upper bounds
  only rise from zero, every stored value fits exactly when the last ones do. The padding
  \<^verbatim>\<open>-= 1\<close> and \<^verbatim>\<open>+= 1\<close> is array arithmetic, which wraps.
\<close>

definition fits_int32 :: "int \<Rightarrow> bool" where
  "fits_int32 x = (- (2 ^ 31) \<le> x \<and> x < 2 ^ 31)"

definition wrap32 :: "int \<Rightarrow> int" where
  "wrap32 x = (x + 2 ^ 31) mod 2 ^ 32 - 2 ^ 31"

definition rn_range_fits :: "rn_range \<Rightarrow> bool" where
  "rn_range_fits rng = (case rng of ((lo0, hi0), (lo1, hi1), (lo2, hi2)) \<Rightarrow>
     fits_int32 lo0 \<and> fits_int32 hi0 \<and> fits_int32 lo1 \<and> fits_int32 hi1
     \<and> fits_int32 lo2 \<and> fits_int32 hi2)"

definition rn_range_pad :: "rn_range \<Rightarrow> rn_range" where
  "rn_range_pad rng = (case rng of ((lo0, hi0), (lo1, hi1), (lo2, hi2)) \<Rightarrow>
     ((wrap32 (lo0 - 1), wrap32 (hi0 + 1)), (wrap32 (lo1 - 1), wrap32 (hi1 + 1)),
      (wrap32 (lo2 - 1), wrap32 (hi2 + 1))))"

text \<open>
  The image of the copy \<open>rn + pos\<close> in the new basis, nudged:
  \<^verbatim>\<open>np.matmul(rn + pos, conv_mat) - origin + delta\<close>.
\<close>

definition res_pos_of :: "mat3 \<Rightarrow> vec3 \<Rightarrow> real \<Rightarrow> int \<times> int \<times> int \<Rightarrow> vec3 \<Rightarrow> vec3" where
  "res_pos_of conv_mat origin delta rn pos =
     vshift (vsub (matmul (vadd (of_int3 rn) pos) conv_mat) origin) delta"

text \<open>The loops that add the orbitals: \<^verbatim>\<open>range(lo, hi + 1)\<close> on each axis.\<close>

definition reshape_orbitals ::
  "PrimitiveCell \<Rightarrow> mat3 \<Rightarrow> vec3 \<Rightarrow> real \<Rightarrow> rn_range \<Rightarrow> replicas \<Rightarrow> replicas" where
  "reshape_orbitals prim_cell conv_mat origin delta rng =
     (case rng of ((lo0, hi0), (lo1, hi1), (lo2, hi2)) \<Rightarrow>
       fold (\<lambda>i_a.
         fold (\<lambda>i_b.
           fold (\<lambda>i_c.
             fold (\<lambda>(i_o, pos) st.
                    let res_pos = res_pos_of conv_mat origin delta (i_a, i_b, i_c) pos;
                        res_rn = get_cell_index res_pos
                    in if res_rn = (0, 0, 0)
                       then add_replica (i_a, i_b, i_c, i_o) res_pos (orb_eng prim_cell ! i_o) st
                       else st)
               (enumerate 0 (orb_pos prim_cell)))
             [lo2..hi2])
           [lo1..hi1])
         [lo0..hi0])"

text \<open>
  The innermost loop \<^verbatim>\<open>for id_pc_j in orb_id_pc\<close>: every kept copy of the destination
  orbital within \<^verbatim>\<open>pos_tol\<close> of the wrapped destination gets a hopping.
  \<open>res_orb_pos\<close> is \<^verbatim>\<open>res_cell.orb_pos\<close>, synchronised after the orbital loops.
\<close>

fun reshape_match_loop ::
  "(id_pc \<rightharpoonup> nat) \<Rightarrow> vec3 list \<Rightarrow> real \<Rightarrow> nat \<Rightarrow> vec3 \<Rightarrow> int \<times> int \<times> int \<Rightarrow> nat \<Rightarrow> complex
     \<Rightarrow> id_pc list \<Rightarrow> PrimitiveCell \<Rightarrow> error + PrimitiveCell" where
  "reshape_match_loop sc res_orb_pos pos_tol hj res_pos res_rn id_sc_i e [] res_cell = Inr res_cell"
| "reshape_match_loop sc res_orb_pos pos_tol hj res_pos res_rn id_sc_i e (id_pc_j # rest) res_cell =
     (if rid_orb id_pc_j = hj then
        (case sc id_pc_j of
           None \<Rightarrow> Inl KeyError
         | Some id_sc_j \<Rightarrow>
             if length res_orb_pos \<le> id_sc_j then Inl IndexError
             else if norm3 (vsub (res_orb_pos ! id_sc_j) res_pos) \<le> pos_tol
             then reshape_match_loop sc res_orb_pos pos_tol hj res_pos res_rn id_sc_i e rest
                    (add_hopping res_cell res_rn id_sc_i id_sc_j e)
             else reshape_match_loop sc res_orb_pos pos_tol hj res_pos res_rn id_sc_i e rest res_cell)
      else reshape_match_loop sc res_orb_pos pos_tol hj res_pos res_rn id_sc_i e rest res_cell)"

text \<open>
  The loop \<^verbatim>\<open>for i_h, hop in enumerate(prim_cell.hop_ind)\<close> for one kept orbital.
  \<^verbatim>\<open>prim_cell.orb_pos[hop.item(4)]\<close> raises \<^verbatim>\<open>IndexError\<close> beyond the array;
  \<^verbatim>\<open>prim_cell.hop_eng[i_h]\<close> is always within it, the two arrays being as long as the
  hopping list.
\<close>

fun reshape_hop_loop ::
  "mat3 \<Rightarrow> vec3 \<Rightarrow> real \<Rightarrow> real \<Rightarrow> vec3 list \<Rightarrow> complex list \<Rightarrow> id_pc list \<Rightarrow> (id_pc \<rightharpoonup> nat) \<Rightarrow> vec3 list
     \<Rightarrow> nat \<Rightarrow> id_pc \<Rightarrow> (nat \<times> (int \<times> int \<times> int \<times> nat \<times> nat)) list \<Rightarrow> PrimitiveCell
     \<Rightarrow> error + PrimitiveCell" where
  "reshape_hop_loop conv_mat origin delta pos_tol prim_orb_pos prim_hop_eng pcs sc res_orb_pos
     id_sc_i id_pc_i [] res_cell = Inr res_cell"
| "reshape_hop_loop conv_mat origin delta pos_tol prim_orb_pos prim_hop_eng pcs sc res_orb_pos
     id_sc_i id_pc_i ((i_h, hop) # rest) res_cell =
     (case (id_pc_i, hop) of ((i_a, i_b, i_c, i_o), (ra, rb, rc, hi, hj)) \<Rightarrow>
        if i_o = hi then
          if length prim_orb_pos \<le> hj then Inl IndexError
          else
            let rn = (i_a + ra, i_b + rb, i_c + rc);
                pos = prim_orb_pos ! hj;
                res_pos = res_pos_of conv_mat origin delta rn pos;
                res_rn = get_cell_index res_pos;
                res_pos = vsub res_pos (of_int3 res_rn)
            in case reshape_match_loop sc res_orb_pos pos_tol hj res_pos res_rn id_sc_i
                      (prim_hop_eng ! i_h) pcs res_cell of
                 Inl err \<Rightarrow> Inl err
               | Inr res_cell' \<Rightarrow>
                   reshape_hop_loop conv_mat origin delta pos_tol prim_orb_pos prim_hop_eng pcs sc
                     res_orb_pos id_sc_i id_pc_i rest res_cell'
        else reshape_hop_loop conv_mat origin delta pos_tol prim_orb_pos prim_hop_eng pcs sc
               res_orb_pos id_sc_i id_pc_i rest res_cell)"

text \<open>The loop \<^verbatim>\<open>for id_sc_i in range(res_cell.num_orb)\<close>.\<close>

fun reshape_orb_loop ::
  "mat3 \<Rightarrow> vec3 \<Rightarrow> real \<Rightarrow> real \<Rightarrow> vec3 list \<Rightarrow> complex list \<Rightarrow> id_pc list \<Rightarrow> (id_pc \<rightharpoonup> nat) \<Rightarrow> vec3 list
     \<Rightarrow> (nat \<times> (int \<times> int \<times> int \<times> nat \<times> nat)) list \<Rightarrow> nat list \<Rightarrow> PrimitiveCell
     \<Rightarrow> error + PrimitiveCell" where
  "reshape_orb_loop conv_mat origin delta pos_tol prim_orb_pos prim_hop_eng pcs sc res_orb_pos
     hops [] res_cell = Inr res_cell"
| "reshape_orb_loop conv_mat origin delta pos_tol prim_orb_pos prim_hop_eng pcs sc res_orb_pos
     hops (id_sc_i # rest) res_cell =
     (if length pcs \<le> id_sc_i then Inl IndexError
      else case reshape_hop_loop conv_mat origin delta pos_tol prim_orb_pos prim_hop_eng pcs sc
                  res_orb_pos id_sc_i (pcs ! id_sc_i) hops res_cell of
             Inl err \<Rightarrow> Inl err
           | Inr res_cell' \<Rightarrow>
               reshape_orb_loop conv_mat origin delta pos_tol prim_orb_pos prim_hop_eng pcs sc
                 res_orb_pos hops rest res_cell')"

text \<open>
  The last step: \<^verbatim>\<open>delta\<close> is subtracted from every orbital position of the reshaped
  cell.
\<close>

definition subtract_delta :: "real \<Rightarrow> PrimitiveCell \<Rightarrow> PrimitiveCell" where
  "subtract_delta delta res_cell =
     res_cell\<lparr>orbital_list :=
       map (\<lambda>orbital. orbital\<lparr>position := vshift (position orbital) (- delta)\<rparr>)
         (orbital_list res_cell)\<rparr>"

text \<open>The function past its shape checks and the inversion.\<close>

definition reshape_core ::
  "PrimitiveCell \<Rightarrow> mat3 \<Rightarrow> mat3 \<Rightarrow> vec3 \<Rightarrow> real \<Rightarrow> real \<Rightarrow> error + PrimitiveCell" where
  "reshape_core prim_cell lat_frac conv_mat origin delta pos_tol =
     (let res_cell = PrimitiveCell_init (lat_cart lat_frac (lat_vec prim_cell)) 1;
          rng = rn_range_loop lat_frac
      in if \<not> rn_range_fits rng then Inl OverflowError
         else
           let st = reshape_orbitals prim_cell conv_mat origin delta (rn_range_pad rng)
                      (no_replicas res_cell)
           in case reshape_orb_loop conv_mat origin delta pos_tol (orb_pos prim_cell)
                     (hop_eng prim_cell) (orb_id_pc st) (orb_id_sc st) (orb_pos (cell st))
                     (enumerate 0 (hop_ind prim_cell)) [0..<num_orb (cell st)] (cell st) of
                Inl err \<Rightarrow> Inl err
              | Inr res_cell' \<Rightarrow> Inr (subtract_delta delta res_cell'))"

definition reshape_prim_cell ::
  "PrimitiveCell \<Rightarrow> real list list \<Rightarrow> real list \<Rightarrow> real \<Rightarrow> real \<Rightarrow> error + PrimitiveCell" where
  "reshape_prim_cell prim_cell lat_frac origin delta pos_tol =
     (case mat3_of lat_frac of
        None \<Rightarrow> Inl LatVecError
      | Some lf \<Rightarrow>
          (case vec3_of origin of
             None \<Rightarrow> Inl ValueError
           | Some og \<Rightarrow>
               (case inv3 lf of
                  None \<Rightarrow> Inl LinAlgError
                | Some conv_mat \<Rightarrow> reshape_core prim_cell lf conv_mat og delta pos_tol)))"

text \<open>The defaults of the two tolerances, \<^verbatim>\<open>delta=0.01\<close> and \<^verbatim>\<open>pos_tol=1e-5\<close>.\<close>

definition default_delta :: real where
  "default_delta = 1 / 100"

definition default_pos_tol :: real where
  "default_pos_tol = 1 / 100000"

text \<open>
  The reshaper in closed form. The kept replica tuples: the translations of the search
  range, in lexicographic order, with every orbital whose nudged image has cell index
  \<open>(0, 0, 0)\<close>; the orbital added for a kept tuple (position still nudged); the wrapped
  destination of a hopping from a kept tuple and its new cell offset; the hoppings added.
\<close>

definition kept_ids :: "PrimitiveCell \<Rightarrow> mat3 \<Rightarrow> vec3 \<Rightarrow> real \<Rightarrow> rn_range \<Rightarrow> id_pc list" where
  "kept_ids prim_cell conv_mat origin delta rng =
     (case rng of ((lo0, hi0), (lo1, hi1), (lo2, hi2)) \<Rightarrow>
        [(i_a, i_b, i_c, i_o).
           i_a \<leftarrow> [lo0..hi0], i_b \<leftarrow> [lo1..hi1], i_c \<leftarrow> [lo2..hi2],
           i_o \<leftarrow> [0..<num_orb prim_cell],
           get_cell_index (res_pos_of conv_mat origin delta (i_a, i_b, i_c)
                             (position (orbital_list prim_cell ! i_o))) = (0, 0, 0)])"

definition kept_orbital :: "PrimitiveCell \<Rightarrow> mat3 \<Rightarrow> vec3 \<Rightarrow> real \<Rightarrow> id_pc \<Rightarrow> orbital" where
  "kept_orbital prim_cell conv_mat origin delta rid = (case rid of (i_a, i_b, i_c, i_o) \<Rightarrow>
     \<lparr>position = res_pos_of conv_mat origin delta (i_a, i_b, i_c)
                   (position (orbital_list prim_cell ! i_o)),
      energy = orbital.energy (orbital_list prim_cell ! i_o)\<rparr>)"

definition hop_res_pos :: "PrimitiveCell \<Rightarrow> mat3 \<Rightarrow> vec3 \<Rightarrow> real \<Rightarrow> id_pc \<Rightarrow> hopping \<Rightarrow> vec3" where
  "hop_res_pos prim_cell conv_mat origin delta rid hop =
     (case (rid, index hop) of ((i_a, i_b, i_c, i_o), (ra, rb, rc, hi, hj)) \<Rightarrow>
        res_pos_of conv_mat origin delta (i_a + ra, i_b + rb, i_c + rc)
          (position (orbital_list prim_cell ! hj)))"

definition hop_res_rn :: "PrimitiveCell \<Rightarrow> mat3 \<Rightarrow> vec3 \<Rightarrow> real \<Rightarrow> id_pc \<Rightarrow> hopping \<Rightarrow> int \<times> int \<times> int" where
  "hop_res_rn prim_cell conv_mat origin delta rid hop =
     get_cell_index (hop_res_pos prim_cell conv_mat origin delta rid hop)"

definition hop_wrapped :: "PrimitiveCell \<Rightarrow> mat3 \<Rightarrow> vec3 \<Rightarrow> real \<Rightarrow> id_pc \<Rightarrow> hopping \<Rightarrow> vec3" where
  "hop_wrapped prim_cell conv_mat origin delta rid hop =
     vsub (hop_res_pos prim_cell conv_mat origin delta rid hop)
       (of_int3 (hop_res_rn prim_cell conv_mat origin delta rid hop))"

definition hop_matches ::
  "PrimitiveCell \<Rightarrow> mat3 \<Rightarrow> vec3 \<Rightarrow> real \<Rightarrow> real \<Rightarrow> id_pc list \<Rightarrow> id_pc \<Rightarrow> hopping \<Rightarrow> (nat \<times> id_pc) list" where
  "hop_matches prim_cell conv_mat origin delta pos_tol pcs rid hop =
     filter (\<lambda>(id_sc_j, id_pc_j). rid_orb id_pc_j = hop_j hop
               \<and> norm3 (vsub (position (kept_orbital prim_cell conv_mat origin delta id_pc_j))
                           (hop_wrapped prim_cell conv_mat origin delta rid hop)) \<le> pos_tol)
       (enumerate 0 pcs)"

definition reshape_hoppings ::
  "PrimitiveCell \<Rightarrow> mat3 \<Rightarrow> vec3 \<Rightarrow> real \<Rightarrow> real \<Rightarrow> id_pc list \<Rightarrow> hopping list" where
  "reshape_hoppings prim_cell conv_mat origin delta pos_tol pcs =
     [mk_hop (hop_res_rn prim_cell conv_mat origin delta id_pc_i hop) id_sc_i id_sc_j
        (hopping.energy hop).
        (id_sc_i, id_pc_i) \<leftarrow> enumerate 0 pcs,
        hop \<leftarrow> hopping_list prim_cell, hop_i hop = rid_orb id_pc_i,
        (id_sc_j, id_pc_j) \<leftarrow> hop_matches prim_cell conv_mat origin delta pos_tol pcs id_pc_i hop]"

text \<open>
  What one run of the innermost loop adds, and what one iteration of the loop over the
  hoppings adds, in terms of the loops' own arguments.
\<close>

definition match_entries ::
  "(id_pc \<rightharpoonup> nat) \<Rightarrow> vec3 list \<Rightarrow> real \<Rightarrow> nat \<Rightarrow> vec3 \<Rightarrow> int \<times> int \<times> int \<Rightarrow> nat \<Rightarrow> complex
     \<Rightarrow> id_pc list \<Rightarrow> hopping list" where
  "match_entries sc res_orb_pos pos_tol hj res_pos res_rn id_sc_i e cands =
     map (\<lambda>id_pc_j. mk_hop res_rn id_sc_i (the (sc id_pc_j)) e)
       (filter (\<lambda>id_pc_j. rid_orb id_pc_j = hj
                  \<and> norm3 (vsub (res_orb_pos ! the (sc id_pc_j)) res_pos) \<le> pos_tol) cands)"

definition hop_entries ::
  "mat3 \<Rightarrow> vec3 \<Rightarrow> real \<Rightarrow> real \<Rightarrow> vec3 list \<Rightarrow> complex list \<Rightarrow> id_pc list \<Rightarrow> (id_pc \<rightharpoonup> nat) \<Rightarrow> vec3 list
     \<Rightarrow> nat \<Rightarrow> id_pc \<Rightarrow> nat \<times> (int \<times> int \<times> int \<times> nat \<times> nat) \<Rightarrow> hopping list" where
  "hop_entries conv_mat origin delta pos_tol prim_orb_pos prim_hop_eng pcs sc res_orb_pos
     id_sc_i id_pc_i ih =
     (case (id_pc_i, ih) of ((i_a, i_b, i_c, i_o), (i_h, (ra, rb, rc, hi, hj))) \<Rightarrow>
        if i_o = hi then
          let res_pos = res_pos_of conv_mat origin delta (i_a + ra, i_b + rb, i_c + rc)
                          (prim_orb_pos ! hj);
              res_rn = get_cell_index res_pos
          in match_entries sc res_orb_pos pos_tol hj (vsub res_pos (of_int3 res_rn)) res_rn
               id_sc_i (prim_hop_eng ! i_h) pcs
        else [])"

text \<open>
  A count the spec asks for and the source does not keep: the pairs of a kept orbital and a
  hopping leaving it for which no kept orbital matched, so that nothing was added.
\<close>

definition dropped_hoppings ::
  "PrimitiveCell \<Rightarrow> mat3 \<Rightarrow> vec3 \<Rightarrow> real \<Rightarrow> real \<Rightarrow> id_pc list \<Rightarrow> nat" where
  "dropped_hoppings prim_cell conv_mat origin delta pos_tol pcs =
     length [(id_pc_i, hop).
        id_pc_i \<leftarrow> pcs, hop \<leftarrow> hopping_list prim_cell, hop_i hop = rid_orb id_pc_i,
        hop_matches prim_cell conv_mat origin delta pos_tol pcs id_pc_i hop = []]"

definition reshape_result ::
  "PrimitiveCell \<Rightarrow> mat3 \<Rightarrow> mat3 \<Rightarrow> vec3 \<Rightarrow> real \<Rightarrow> real \<Rightarrow> PrimitiveCell" where
  "reshape_result prim_cell lat_frac conv_mat origin delta pos_tol =
     (let pcs = kept_ids prim_cell conv_mat origin delta (rn_range_pad (rn_range_loop lat_frac))
      in \<lparr>lat_vec = lat_cart lat_frac (lat_vec prim_cell),
          orbital_list = map (\<lambda>rid. \<lparr>position = vshift (position (kept_orbital prim_cell conv_mat origin delta rid)) (- delta),
                                      energy = orbital.energy (kept_orbital prim_cell conv_mat origin delta rid)\<rparr>) pcs,
          hopping_list = reshape_hoppings prim_cell conv_mat origin delta pos_tol pcs,
          extended = 1\<rparr>)"

text \<open>
  The half-open unit cube \<open>[0, 1)\<^sup>3\<close> of the new basis, and the number of dropped
  hoppings of a call, behind the same checks as the call itself.
\<close>

definition in_unit_cube :: "vec3 \<Rightarrow> bool" where
  "in_unit_cube v = (case v of (x, y, z) \<Rightarrow> 0 \<le> x \<and> x < 1 \<and> 0 \<le> y \<and> y < 1 \<and> 0 \<le> z \<and> z < 1)"

definition reshape_dropped ::
  "PrimitiveCell \<Rightarrow> real list list \<Rightarrow> real list \<Rightarrow> real \<Rightarrow> real \<Rightarrow> nat option" where
  "reshape_dropped prim_cell lat_frac origin delta pos_tol =
     (case (mat3_of lat_frac, vec3_of origin) of
        (Some lf, Some og) \<Rightarrow>
          (case inv3 lf of
             Some conv_mat \<Rightarrow>
               Some (dropped_hoppings prim_cell conv_mat og delta pos_tol
                 (kept_ids prim_cell conv_mat og delta (rn_range_pad (rn_range_loop lf))))
           | None \<Rightarrow> None)
      | _ \<Rightarrow> None)"

section \<open>Concrete models\<close>

definition unit_lat :: mat3 where
  "unit_lat = ((1, 0, 0), (0, 1, 0), (0, 0, 1))"

text \<open>
  The two-orbital cell of \<^verbatim>\<open>make_graphene_diamond\<close> (orbitals and hoppings as in
  \<^verbatim>\<open>tbplas/materials/graphene.py\<close>; the lattice vectors, which come from a function
  that is not among the sources, are replaced by the unit cube).
\<close>

definition graphene :: PrimitiveCell where
  "graphene = \<lparr>lat_vec = unit_lat,
     orbital_list = [\<lparr>position = (0, 0, 0), energy = 0\<rparr>,
                     \<lparr>position = (1/3, 1/3, 0), energy = 0\<rparr>],
     hopping_list = [mk_hop (0, 0, 0) 0 1 (-2.7), mk_hop (1, 0, 0) 1 0 (-2.7),
                     mk_hop (0, 1, 0) 1 0 (-2.7)],
     extended = 1\<rparr>"

text \<open>An open chain of three orbitals, \<open>0 \<midarrow> 1 \<midarrow> 2\<close>, and what trimming leaves of it.\<close>

definition chain3 :: PrimitiveCell where
  "chain3 = \<lparr>lat_vec = unit_lat,
     orbital_list = [\<lparr>position = (0, 0, 0), energy = 1\<rparr>,
                     \<lparr>position = (1/4, 0, 0), energy = 2\<rparr>,
                     \<lparr>position = (1/2, 0, 0), energy = 3\<rparr>],
     hopping_list = [mk_hop (0, 0, 0) 0 1 1, mk_hop (0, 0, 0) 1 2 1],
     extended = 1\<rparr>"

definition chain3_trimmed :: PrimitiveCell where
  "chain3_trimmed = \<lparr>lat_vec = unit_lat,
     orbital_list = [\<lparr>position = (1/4, 0, 0), energy = 2\<rparr>],
     hopping_list = [],
     extended = 1\<rparr>"

definition no_orbitals :: PrimitiveCell where
  "no_orbitals = \<lparr>lat_vec = unit_lat, orbital_list = [], hopping_list = [], extended = 1\<rparr>"

text \<open>
  A one-orbital cell with a hopping to its own image one cell further along the first axis;
  a one-orbital cell for the skew basis \<open>(4,0,0), (4,1,0), (4,0,1)\<close>; and a two-orbital
  cell whose second orbital lies three cells away from the home cell, with and without a
  hopping to it.
\<close>

definition line_cell :: PrimitiveCell where
  "line_cell = \<lparr>lat_vec = unit_lat,
     orbital_list = [\<lparr>position = (0, 0, 0), energy = 0\<rparr>],
     hopping_list = [mk_hop (1, 0, 0) 0 0 1],
     extended = 1\<rparr>"

definition skew_cell :: PrimitiveCell where
  "skew_cell = \<lparr>lat_vec = unit_lat,
     orbital_list = [\<lparr>position = (0, 7/8, 7/8), energy = 0\<rparr>],
     hopping_list = [],
     extended = 1\<rparr>"

definition skew_basis :: "real list list" where
  "skew_basis = [[4, 0, 0], [4, 1, 0], [4, 0, 1]]"

definition skew_reshaped :: PrimitiveCell where
  "skew_reshaped = \<lparr>lat_vec = ((4, 0, 0), (4, 1, 0), (4, 0, 1)),
     orbital_list = [\<lparr>position = (0, 7/8, 7/8), energy = 0\<rparr>,
                     \<lparr>position = (1/4, 7/8, 7/8), energy = 0\<rparr>,
                     \<lparr>position = (1/2, 7/8, 7/8), energy = 0\<rparr>],
     hopping_list = [],
     extended = 1\<rparr>"

definition far_cell :: PrimitiveCell where
  "far_cell = \<lparr>lat_vec = unit_lat,
     orbital_list = [\<lparr>position = (0, 0, 0), energy = 0\<rparr>, \<lparr>position = (3, 0, 0), energy = 0\<rparr>],
     hopping_list = [mk_hop (0, 0, 0) 0 1 1],
     extended = 1\<rparr>"

definition far_cell_bare :: PrimitiveCell where
  "far_cell_bare = \<lparr>lat_vec = unit_lat,
     orbital_list = [\<lparr>position = (0, 0, 0), energy = 0\<rparr>, \<lparr>position = (3, 0, 0), energy = 0\<rparr>],
     hopping_list = [],
     extended = 1\<rparr>"

definition far_reshaped :: PrimitiveCell where
  "far_reshaped = \<lparr>lat_vec = unit_lat,
     orbital_list = [\<lparr>position = (0, 0, 0), energy = 0\<rparr>],
     hopping_list = [],
     extended = 1\<rparr>"

definition identity3 :: "real list list" where
  "identity3 = [[1, 0, 0], [0, 1, 0], [0, 0, 1]]"


section \<open>Properties of \<^verbatim>\<open>apply_pbc\<close>\<close>

lemma to_keep_iff:
  "length pbc = length rs \<Longrightarrow> to_keep pbc rs = (\<forall>ax < length rs. \<not> pbc ! ax \<longrightarrow> rs ! ax = 0)"
proof (induction pbc rs rule: to_keep.induct)
  case (1 p ps r rs)
  then show ?case
    by (auto simp: nth_Cons less_Suc_eq_0_disj split: nat.splits)
qed simp_all

lemma length_hop_rn: "length (hop_rn hop) = 3"
  by (simp add: hop_rn_def split: prod.splits)

lemma to_keep_offset_allowed:
  "length pbc = 3 \<Longrightarrow> to_keep pbc (hop_rn hop) = offset_allowed pbc hop"
  by (simp add: to_keep_iff length_hop_rn offset_allowed_def)

lemma hop_to_keep_filter:
  "hop_to_keep pbc hops acc = acc @ filter (\<lambda>hop. to_keep pbc (hop_rn hop)) hops"
  by (induction hops arbitrary: acc) simp_all

lemma apply_pbc_filter:
  "length pbc = 3 \<Longrightarrow>
   apply_pbc prim_cell pbc =
     Inr (prim_cell\<lparr>hopping_list := filter (offset_allowed pbc) (hopping_list prim_cell)\<rparr>)"
  by (simp add: apply_pbc_def hop_to_keep_filter to_keep_offset_allowed cong: filter_cong)

text \<open>
  Claim C6. For a 3-element boolean vector \<open>pbc\<close>, \<open>apply_pbc\<close> returns the model with
  its hopping list replaced by exactly the hoppings (in their order) whose cell offset is
  zero along every axis where \<open>pbc\<close> is false; all other fields are untouched. Hence no
  hopping is added, applying it again with the same vector changes nothing, and with
  \<open>(True, True, True)\<close> the model is returned unchanged.
\<close>

theorem apply_pbc_subset_idempotent:
  assumes "length pbc = 3"
  shows "\<exists>res. apply_pbc prim_cell pbc = Inr res
           \<and> res = prim_cell\<lparr>hopping_list := filter (offset_allowed pbc) (hopping_list prim_cell)\<rparr>
           \<and> set (hopping_list res) \<subseteq> set (hopping_list prim_cell)
           \<and> length (hopping_list res) \<le> length (hopping_list prim_cell)
           \<and> apply_pbc res pbc = Inr res
           \<and> apply_pbc prim_cell [True, True, True] = Inr prim_cell"
proof -
  let ?res = "prim_cell\<lparr>hopping_list := filter (offset_allowed pbc) (hopping_list prim_cell)\<rparr>"
  have 1: "apply_pbc prim_cell pbc = Inr ?res"
    using assms by (rule apply_pbc_filter)
  have 2: "apply_pbc ?res pbc = Inr ?res"
    using assms by (simp add: apply_pbc_filter)
  have "offset_allowed [True, True, True] hop" for hop
    by (simp add: offset_allowed_def nth_Cons split: nat.splits)
  then have 3: "apply_pbc prim_cell [True, True, True] = Inr prim_cell"
    by (simp add: apply_pbc_filter)
  show ?thesis
    using 1 2 3 by simp
qed


theorem apply_pbc_subset_idempotent_witness:
  "length [False, True, True] = 3
   \<and> (\<exists>res. apply_pbc graphene [False, True, True] = Inr res
          \<and> res = graphene\<lparr>hopping_list := filter (offset_allowed [False, True, True]) (hopping_list graphene)\<rparr>
          \<and> set (hopping_list res) \<subseteq> set (hopping_list graphene)
          \<and> length (hopping_list res) \<le> length (hopping_list graphene)
          \<and> apply_pbc res [False, True, True] = Inr res
          \<and> apply_pbc graphene [True, True, True] = Inr graphene)"
proof -
  have h: "length [False, True, True] = 3" by simp
  show ?thesis
    using h apply_pbc_subset_idempotent [OF h, of graphene] by blast
qed

section \<open>Properties of \<^verbatim>\<open>trim_prim_cell\<close>\<close>

subsection \<open>The index map\<close>

lemma rank_card: "rank S k = card ({..<k} - S)"
proof -
  have "rank S k = card ({t. t \<notin> S} \<inter> set [0..<k])"
    unfolding rank_def by (rule distinct_length_filter) simp
  also have "{t. t \<notin> S} \<inter> set [0..<k] = {..<k} - S" by auto
  finally show ?thesis .
qed

lemma rank_below:
  assumes "finite S" "\<forall>u\<in>S. u < t"
  shows "rank S t = t - card S" and "card S \<le> t"
proof -
  have sub: "S \<subseteq> {..<t}" using assms by auto
  show "rank S t = t - card S"
    using card_Diff_subset [OF assms(1) sub] by (simp add: rank_card)
  show "card S \<le> t" using card_mono [OF _ sub] by simp
qed

lemma rank_less:
  assumes "i \<notin> S" "i < t"
  shows "rank S i < rank S t"
proof -
  have "{..<i} - S \<subset> {..<t} - S" using assms by auto
  then show ?thesis unfolding rank_card by (intro psubset_card_mono) auto
qed

lemma rank_insert:
  assumes "t \<notin> S"
  shows "rank (insert t S) i = (if t < i then rank S i - 1 else rank S i)"
proof -
  have eq: "{..<i} - insert t S = ({..<i} - S) - {t}" by auto
  show ?thesis
  proof (cases "t < i")
    case True
    then have "t \<in> {..<i} - S" using assms by simp
    then show ?thesis using True by (simp add: rank_card eq)
  next
    case False
    then have "t \<notin> {..<i} - S" by simp
    then show ?thesis using False by (simp add: rank_card eq)
  qed
qed

lemma rank_empty: "rank {} k = k"
  by (simp add: rank_def)

lemma nths_cong_length:
  "(\<And>i. i < length xs \<Longrightarrow> i \<in> A \<longleftrightarrow> i \<in> B) \<Longrightarrow> nths xs A = nths xs B"
  unfolding nths_def by (rule arg_cong [where f = "map fst"], rule filter_cong) (auto simp: set_zip)


lemma nths_remove_step:
  assumes "finite S" "\<forall>u\<in>S. u < t" "t < length xs"
  shows "take (t - card S) (nths xs (- S)) @ drop (Suc (t - card S)) (nths xs (- S))
         = nths xs (- insert t S)"
proof -
  let ?a = "take t xs" and ?b = "drop (Suc t) xs"
  have xs: "xs = ?a @ xs ! t # ?b"
    using assms(3) by (simp add: id_take_nth_drop [symmetric])
  have la: "length ?a = t" using assms(3) by simp
  have pre: "nths ?a (- insert t S) = nths ?a (- S)"
    by (rule nths_cong_length) (use la in auto)
  have len: "length (nths ?a (- S)) = t - card S"
  proof -
    have "{i. i < length ?a \<and> i \<in> - S} = {i. i < t \<and> i \<notin> S}"
      unfolding la by simp
    then have "length (nths ?a (- S)) = card {i. i < t \<and> i \<notin> S}"
      by (simp only: length_nths)
    also have "{i. i < t \<and> i \<notin> S} = {..<t} - S" by auto
    also have "card \<dots> = rank S t" by (simp add: rank_card)
    finally show ?thesis using rank_below(1) [OF assms(1,2)] by simp
  qed
  have r1: "nths (xs ! t # ?b) {j. j + t \<in> - S} = xs ! t # ?b"
    by (rule nths_all) (use assms(2) in auto)
  have r2: "nths (xs ! t # ?b) {j. j + t \<in> - insert t S} = ?b"
  proof -
    have "nths ?b {j. Suc j + t \<in> - insert t S} = ?b"
      by (rule nths_all) (use assms(2) in auto)
    then show ?thesis by (simp add: nths_Cons)
  qed
  have full: "nths xs (- S) = nths ?a (- S) @ xs ! t # ?b"
    by (subst xs, subst nths_append) (simp only: la r1)
  have rem: "nths xs (- insert t S) = nths ?a (- S) @ ?b"
    by (subst xs, subst nths_append) (simp only: la r2 pre)
  show ?thesis
    unfolding full rem using len by simp
qed


subsection \<open>One removal, and the loop of removals\<close>

lemma shift_rank:
  assumes "finite S" "\<forall>u\<in>S. u < t" "i \<notin> S" "i \<noteq> t"
  shows "rank S i \<noteq> t - card S"
    and "shift_index (t - card S) (rank S i) = rank (insert t S) i"
proof -
  have t: "rank S t = t - card S" and tS: "t \<notin> S"
    using rank_below(1) [OF assms(1,2)] assms(2) by auto
  consider "i < t" | "t < i" using assms(4) by linarith
  then have "rank S i \<noteq> rank S t \<and> shift_index (rank S t) (rank S i) = rank (insert t S) i"
  proof cases
    case 1
    then have "rank S i < rank S t" using assms(3) by (rule rank_less [rotated])
    then show ?thesis using 1 by (simp add: shift_index_def rank_insert [OF tS])
  next
    case 2
    then have "rank S t < rank S i" using tS by (rule rank_less [rotated])
    then show ?thesis using 2 by (simp add: shift_index_def rank_insert [OF tS])
  qed
  then show "rank S i \<noteq> t - card S"
    and "shift_index (t - card S) (rank S i) = rank (insert t S) i"
    unfolding t by simp_all
qed

lemma hop_ij_rank_hopping [simp]:
  "hop_i (rank_hopping S hop) = rank S (hop_i hop)"
  "hop_j (rank_hopping S hop) = rank S (hop_j hop)"
  by (simp_all add: rank_hopping_def hop_i_def hop_j_def split: prod.splits)

lemma shift_rank_hopping:
  assumes "finite S" "\<forall>u\<in>S. u < t" "hop_i hop \<notin> S" "hop_j hop \<notin> S"
    "hop_i hop \<noteq> t" "hop_j hop \<noteq> t"
  shows "shift_hopping (t - card S) (rank_hopping S hop) = rank_hopping (insert t S) hop"
  using shift_rank(2) [OF assms(1,2,3,5)] shift_rank(2) [OF assms(1,2,4,6)]
  by (simp add: shift_hopping_def rank_hopping_def hop_i_def hop_j_def split: prod.splits)

lemma remove_orbital_step:
  assumes "finite S" "\<forall>u\<in>S. u < t" "t < num_orb c"
  shows "remove_orbital (remove_orbitals S c) (t - card S) = Inr (remove_orbitals (insert t S) c)"
proof -
  let ?hs = "hopping_list c"
  have t: "t < length (orbital_list c)" using assms(3) by (simp add: num_orb_def)
  have "length (nths (orbital_list c) (- S)) = card ({..<length (orbital_list c)} - S)"
    by (simp add: length_nths) (rule arg_cong [where f = card], auto)
  also have "\<dots> = rank S (length (orbital_list c))" by (simp add: rank_card)
  also have "t - card S < \<dots>"
    using rank_less [of t S "length (orbital_list c)"] assms(2) t rank_below(1) [OF assms(1,2)]
    by auto
  finally have inrange: "\<not> num_orb (remove_orbitals S c) \<le> t - card S"
    by (simp add: num_orb_def remove_orbitals_def)
  have orbs: "take (t - card S) (nths (orbital_list c) (- S))
                @ drop (Suc (t - card S)) (nths (orbital_list c) (- S))
              = nths (orbital_list c) (- insert t S)"
    using assms(1,2) t by (rule nths_remove_step)
  have hops: "map (shift_hopping (t - card S))
                (filter (\<lambda>hop. hop_i hop \<noteq> t - card S \<and> hop_j hop \<noteq> t - card S)
                   (map (rank_hopping S) (filter (\<lambda>hop. hop_i hop \<notin> S \<and> hop_j hop \<notin> S) ?hs)))
              = map (rank_hopping (insert t S))
                  (filter (\<lambda>hop. hop_i hop \<notin> insert t S \<and> hop_j hop \<notin> insert t S) ?hs)"
  proof -
    have f: "filter ((\<lambda>hop. hop_i hop \<noteq> t - card S \<and> hop_j hop \<noteq> t - card S) \<circ> rank_hopping S)
               (filter (\<lambda>hop. hop_i hop \<notin> S \<and> hop_j hop \<notin> S) ?hs)
             = filter (\<lambda>hop. hop_i hop \<notin> insert t S \<and> hop_j hop \<notin> insert t S) ?hs"
      unfolding filter_filter
    proof (rule filter_cong [OF refl])
      fix hop
      show "(hop_i hop \<notin> S \<and> hop_j hop \<notin> S) \<and>
            ((\<lambda>hop. hop_i hop \<noteq> t - card S \<and> hop_j hop \<noteq> t - card S) \<circ> rank_hopping S) hop
            \<longleftrightarrow> hop_i hop \<notin> insert t S \<and> hop_j hop \<notin> insert t S"
        using shift_rank(1) [OF assms(1,2), of "hop_i hop"] shift_rank(1) [OF assms(1,2), of "hop_j hop"]
          rank_below(1) [OF assms(1,2)]
        by auto
    qed
    have "map (shift_hopping (t - card S) \<circ> rank_hopping S)
            (filter (\<lambda>hop. hop_i hop \<notin> insert t S \<and> hop_j hop \<notin> insert t S) ?hs)
          = map (rank_hopping (insert t S))
            (filter (\<lambda>hop. hop_i hop \<notin> insert t S \<and> hop_j hop \<notin> insert t S) ?hs)"
      by (rule map_cong [OF refl]) (use shift_rank_hopping [OF assms(1,2)] in auto)
    then show ?thesis
      by (simp only: filter_map map_map f)
  qed
  show ?thesis
    using inrange
    by (simp add: remove_orbital_def) (simp add: remove_orbitals_def orbs hops)
qed

lemma remove_orbitals_empty: "remove_orbitals {} c = c"
proof -
  have "rank_hopping {} hop = hop" for hop
    by (simp add: rank_hopping_def rank_empty split: prod.splits)
  then have "map (rank_hopping {}) (hopping_list c) = hopping_list c"
    by (simp add: map_idI)
  then show ?thesis by (simp add: remove_orbitals_def nths_all)
qed

lemma remove_loop_suffix:
  assumes "sorted_wrt (<) T" "\<forall>t\<in>set T. t < num_orb c" "i \<le> length T"
  shows "remove_loop i (drop i T) (remove_orbitals (set (take i T)) c)
         = Inr (remove_orbitals (set T) c)"
  using assms(3)
proof (induction "length T - i" arbitrary: i)
  case 0
  then show ?case by simp
next
  case (Suc n)
  then have i: "i < length T" by simp
  let ?S = "set (take i T)"
  have d: "distinct T" using assms(1) strict_sorted_iff by blast
  have below: "\<forall>u\<in>?S. u < T ! i"
    using assms(1) i by (auto simp: in_set_conv_nth sorted_wrt_iff_nth_less)
  have card: "card ?S = i"
    using d i by (simp add: distinct_card)
  have step: "remove_orbital (remove_orbitals ?S c) (T ! i - i)
              = Inr (remove_orbitals (set (take (Suc i) T)) c)"
    using remove_orbital_step [of ?S "T ! i" c] below assms(2) i
    by (simp add: card take_Suc_conv_app_nth)
  have "remove_loop (Suc i) (drop (Suc i) T) (remove_orbitals (set (take (Suc i) T)) c)
        = Inr (remove_orbitals (set T) c)"
    using Suc i by (intro Suc.hyps) auto
  then show ?case
    by (simp add: Cons_nth_drop_Suc [OF i, symmetric] step)
qed

lemma remove_loop_closed:
  assumes "sorted_wrt (<) T" "\<forall>t\<in>set T. t < num_orb c"
  shows "remove_loop 0 T c = Inr (remove_orbitals (set T) c)"
  using remove_loop_suffix [OF assms, of 0] by (simp add: remove_orbitals_empty)

subsection \<open>The degree counts\<close>

lemma count_hops_nth:
  assumes "\<forall>hop\<in>set hops. hop_i hop < length hc \<and> hop_j hop < length hc"
  shows "\<exists>hc'. count_hops hops hc = Inr hc' \<and> length hc' = length hc \<and>
     (\<forall>k<length hc. hc' ! k = hc ! k
        + of_nat (length (filter (\<lambda>hop. hop_i hop = k) hops)
                  + length (filter (\<lambda>hop. hop_j hop = k) hops)))"
  using assms
proof (induction hops arbitrary: hc)
  case Nil
  then show ?case by simp
next
  case (Cons hop hops)
  let ?hc1 = "hc[hop_i hop := hc ! hop_i hop + 1]"
  let ?hc2 = "?hc1[hop_j hop := ?hc1 ! hop_j hop + 1]"
  have len: "length ?hc2 = length hc" by simp
  have "\<forall>h\<in>set hops. hop_i h < length ?hc2 \<and> hop_j h < length ?hc2"
    using Cons.prems by simp
  from Cons.IH [OF this] obtain hc' where
    run: "count_hops hops ?hc2 = Inr hc'" and l: "length hc' = length hc" and
    nth: "\<And>k. k < length hc \<Longrightarrow> hc' ! k = ?hc2 ! k
        + of_nat (length (filter (\<lambda>hop. hop_i hop = k) hops)
                  + length (filter (\<lambda>hop. hop_j hop = k) hops))"
    by (auto simp: len)
  have step: "count_hops (hop # hops) hc = Inr hc'"
    using Cons.prems run by (simp add: Let_def)
  have "hc' ! k = hc ! k
        + of_nat (length (filter (\<lambda>hop. hop_i hop = k) (hop # hops))
                  + length (filter (\<lambda>hop. hop_j hop = k) (hop # hops)))"
    if "k < length hc" for k
    using nth [OF that] that Cons.prems by (simp add: nth_list_update)
  then show ?case using step l by blast
qed

lemma sint_of_nat_small:
  assumes "d < 2 ^ 31"
  shows "sint (of_nat d :: 32 word) = int d"
proof -
  have "sint (of_nat d :: 32 word) = signed_take_bit 31 (int d)"
    by (simp add: signed_of_nat)
  also have "\<dots> = int d"
    by (rule signed_take_bit_int_eq_self) (use assms in auto)
  finally show ?thesis .
qed

lemma filter_enumerate:
  "map fst (filter (\<lambda>(k, x). P x) (enumerate 0 xs)) = filter (\<lambda>k. P (xs ! k)) [0..<length xs]"
proof -
  have "enumerate 0 xs = map (\<lambda>k. (k, xs ! k)) [0..<length xs]"
    using enumerate_map_upt [of 0 "\<lambda>k. xs ! k" "length xs"] by (simp add: map_nth)
  then show ?thesis
    by (simp add: filter_map comp_def)
qed

lemma degree_le_hops: "degree c k \<le> 2 * length (hopping_list c)"
  unfolding degree_def
  using length_filter_le [of "\<lambda>hop. hop_i hop = k" "hopping_list c"]
    length_filter_le [of "\<lambda>hop. hop_j hop = k" "hopping_list c"]
  by linarith

lemma orb_id_trim_dangling:
  assumes "valid_cell c" "2 * length (hopping_list c) < 2 ^ 31"
  shows "\<exists>hop_count. count_hops (hopping_list c) (replicate (num_orb c) 0) = Inr hop_count
           \<and> orb_id_trim hop_count = filter (\<lambda>k. degree c k \<le> 1) [0..<num_orb c]"
proof -
  have "\<forall>hop\<in>set (hopping_list c).
          hop_i hop < length (replicate (num_orb c) (0::32 word))
          \<and> hop_j hop < length (replicate (num_orb c) (0::32 word))"
    using assms(1) by (simp add: valid_cell_def)
  from count_hops_nth [OF this] obtain hc where
    run: "count_hops (hopping_list c) (replicate (num_orb c) 0) = Inr hc" and
    len: "length hc = num_orb c" and
    nth: "\<And>k. k < num_orb c \<Longrightarrow> hc ! k = of_nat (degree c k)"
    by (auto simp: degree_def)
  have "sint (hc ! k) \<le> 1 \<longleftrightarrow> degree c k \<le> 1" if "k < num_orb c" for k
  proof -
    have "degree c k < 2 ^ 31" using degree_le_hops [of c k] assms(2) by simp
    then show ?thesis by (simp add: nth [OF that] sint_of_nat_small)
  qed
  then have "filter (\<lambda>k. sint (hc ! k) \<le> 1) [0..<length hc]
             = filter (\<lambda>k. degree c k \<le> 1) [0..<num_orb c]"
    unfolding len by (intro filter_cong) auto
  then show ?thesis
    using run by (simp add: orb_id_trim_def filter_enumerate)
qed

lemma trim_prim_cell_closed:
  assumes "valid_cell c" "2 * length (hopping_list c) < 2 ^ 31"
  shows "trim_prim_cell c = Inr (remove_orbitals (dangling_set c) c)"
proof -
  let ?T = "filter (\<lambda>k. degree c k \<le> 1) [0..<num_orb c]"
  from orb_id_trim_dangling [OF assms] obtain hc where
    run: "count_hops (hopping_list c) (replicate (num_orb c) 0) = Inr hc" and
    T: "orb_id_trim hc = ?T"
    by blast
  have strict: "sorted_wrt (<) ?T"
    by (intro sorted_wrt_filter) simp
  then have "sorted ?T" using strict_sorted_iff by blast
  then have sort: "sort ?T = ?T" by (rule sorted_sort_id)
  have set: "set ?T = dangling_set c" by (auto simp: dangling_set_def)
  have "remove_loop 0 ?T c = Inr (remove_orbitals (set ?T) c)"
    using strict by (rule remove_loop_closed) simp
  then show ?thesis
    by (simp only: trim_prim_cell_def run T sort set sum.case)
qed

lemma trim_prim_cell_noop:
  assumes "valid_cell c" "2 * length (hopping_list c) < 2 ^ 31" "dangling_set c = {}"
  shows "trim_prim_cell c = Inr c"
  using trim_prim_cell_closed [OF assms(1,2)] by (simp add: assms(3) remove_orbitals_empty)

lemma valid_remove_orbitals:
  assumes "valid_cell c"
  shows "valid_cell (remove_orbitals S c)"
proof -
  let ?n = "length (orbital_list c)"
  have "length (nths (orbital_list c) (- S)) = card ({..<?n} - S)"
    by (simp add: length_nths) (rule arg_cong [where f = card], auto)
  then have n: "num_orb (remove_orbitals S c) = rank S ?n"
    by (simp add: num_orb_def remove_orbitals_def rank_card)
  have "rank S (hop_i hop) < rank S ?n \<and> rank S (hop_j hop) < rank S ?n"
    if "hop \<in> set (hopping_list c)" "hop_i hop \<notin> S" "hop_j hop \<notin> S" for hop
    using that assms by (auto simp: valid_cell_def num_orb_def intro: rank_less)
  then show ?thesis
    unfolding valid_cell_def n by (auto simp: remove_orbitals_def)
qed

lemma remove_orbitals_same_iff:
  assumes "S \<subseteq> {..<num_orb c}"
  shows "remove_orbitals S c = c \<longleftrightarrow> S = {}"
proof
  assume eq: "remove_orbitals S c = c"
  let ?n = "length (orbital_list c)"
  have fin: "finite S" using assms by (rule finite_subset) simp
  have "length (nths (orbital_list c) (- S)) = card ({..<?n} - S)"
    by (simp add: length_nths) (rule arg_cong [where f = card], auto)
  also have "\<dots> = ?n - card S"
    using card_Diff_subset [OF fin, of "{..<?n}"] assms by (simp add: num_orb_def)
  finally have "length (orbital_list (remove_orbitals S c)) = ?n - card S"
    by (simp add: remove_orbitals_def)
  then have "?n - card S = ?n" by (simp add: eq)
  moreover have "card S \<le> ?n"
    using card_mono [of "{..<?n}" S] assms by (simp add: num_orb_def)
  ultimately have "card S = 0" by linarith
  then show "S = {}" using fin by simp
next
  assume "S = {}"
  then show "remove_orbitals S c = c" by (simp add: remove_orbitals_empty)
qed

text \<open>
  Claim C1, as amended. The code counts the degrees once, on the input model, and removes
  in one pass exactly the orbitals whose degree there is at most one, with the hoppings
  touching them, renumbering the rest densely. (The model is valid and has fewer than
  \<open>2^30\<close> hoppings, so that the 32-bit counters do not wrap.) The surviving orbitals
  are those of input degree at least two, in their order; trimming changes nothing exactly
  when no orbital of the input is dangling, and a second trim changes nothing exactly when
  the model trimmed once has no dangling orbital.
\<close>

theorem trim_prim_cell_one_pass:
  assumes "valid_cell c" "2 * length (hopping_list c) < 2 ^ 31"
  shows "\<exists>res. trim_prim_cell c = Inr res
           \<and> res = remove_orbitals (dangling_set c) c
           \<and> orbital_list res = nths (orbital_list c) {k. 2 \<le> degree c k}
           \<and> (res = c \<longleftrightarrow> dangling_set c = {})
           \<and> (trim_prim_cell res = Inr res \<longleftrightarrow> dangling_set res = {})"
proof -
  let ?res = "remove_orbitals (dangling_set c) c"
  have run: "trim_prim_cell c = Inr ?res"
    using assms by (rule trim_prim_cell_closed)
  have orbs: "orbital_list ?res = nths (orbital_list c) {k. 2 \<le> degree c k}"
    unfolding remove_orbitals_def
    by (simp, rule nths_cong_length) (auto simp: dangling_set_def num_orb_def)
  have same: "?res = c \<longleftrightarrow> dangling_set c = {}"
    by (rule remove_orbitals_same_iff) (auto simp: dangling_set_def)
  have valid: "valid_cell ?res"
    using assms(1) by (rule valid_remove_orbitals)
  have "length (hopping_list ?res) \<le> length (hopping_list c)"
    by (simp add: remove_orbitals_def)
  then have small: "2 * length (hopping_list ?res) < 2 ^ 31"
    using assms(2) by linarith
  have "trim_prim_cell ?res = Inr (remove_orbitals (dangling_set ?res) ?res)"
    using valid small by (rule trim_prim_cell_closed)
  moreover have "remove_orbitals (dangling_set ?res) ?res = ?res \<longleftrightarrow> dangling_set ?res = {}"
    by (rule remove_orbitals_same_iff) (auto simp: dangling_set_def)
  ultimately have again: "trim_prim_cell ?res = Inr ?res \<longleftrightarrow> dangling_set ?res = {}"
    by simp
  show ?thesis
    using run orbs same again by blast
qed

lemma valid_chain3: "valid_cell chain3"
  by (simp add: valid_cell_def chain3_def num_orb_def mk_hop_def hop_i_def hop_j_def)

theorem trim_prim_cell_one_pass_witness:
  "valid_cell chain3 \<and> 2 * length (hopping_list chain3) < (2::nat) ^ 31
   \<and> (\<exists>res. trim_prim_cell chain3 = Inr res
          \<and> res = remove_orbitals (dangling_set chain3) chain3
          \<and> orbital_list res = nths (orbital_list chain3) {k. 2 \<le> degree chain3 k}
          \<and> (res = chain3 \<longleftrightarrow> dangling_set chain3 = {})
          \<and> (trim_prim_cell res = Inr res \<longleftrightarrow> dangling_set res = {}))"
proof -
  have small: "2 * length (hopping_list chain3) < (2::nat) ^ 31"
    by (simp add: chain3_def)
  show ?thesis
    using valid_chain3 small trim_prim_cell_one_pass [OF valid_chain3 small] by blast
qed

text \<open>
  Claim C1 as stated fails on the open chain \<open>0 \<midarrow> 1 \<midarrow> 2\<close>: the two ends have degree
  one and are removed with both hoppings, the middle orbital (input degree two) survives
  with degree zero, and a second trim removes it.
\<close>

theorem trim_prim_cell_not_idempotent:
  "trim_prim_cell chain3 = Inr chain3_trimmed
   \<and> num_orb chain3_trimmed = 1 \<and> degree chain3_trimmed 0 = 0
   \<and> trim_prim_cell chain3_trimmed = Inr no_orbitals
   \<and> no_orbitals \<noteq> chain3_trimmed"
  by (simp add: trim_prim_cell_def chain3_def chain3_trimmed_def no_orbitals_def num_orb_def
      mk_hop_def hop_i_def hop_j_def orb_id_trim_def enumerate_eq_zip remove_orbital_def
      shift_hopping_def shift_index_def upt_rec degree_def)


section \<open>Properties of \<^verbatim>\<open>extend_prim_cell\<close>\<close>

subsection \<open>The bookkeeping in closed form\<close>

lemma no_replicas_of: "no_replicas cell0 = replicas_of cell0 orb []"
  by (simp add: no_replicas_def replicas_of_def)

lemma map_add_fresh: "m k0 = None \<Longrightarrow> [k0 \<mapsto> v] ++ m = m(k0 \<mapsto> v)"
  by (rule ext) (auto simp: map_add_def split: option.splits)

lemma add_replica_of:
  assumes "rid \<notin> set pcs"
  shows "add_replica rid (position (orb rid)) (orbital.energy (orb rid)) (replicas_of cell0 orb pcs)
         = replicas_of cell0 orb (pcs @ [rid])"
proof -
  have "map_of (zip pcs [0..<length pcs]) rid = None"
    using assms by simp
  then have "[rid \<mapsto> length pcs] ++ map_of (zip pcs [0..<length pcs])
             = (map_of (zip pcs [0..<length pcs]))(rid \<mapsto> length pcs)"
    by (rule map_add_fresh)
  then have "map_of (zip (pcs @ [rid]) [0..<Suc (length pcs)])
             = (map_of (zip pcs [0..<length pcs]))(rid \<mapsto> length pcs)"
    by simp
  then show ?thesis
    by (simp add: add_replica_def replicas_of_def add_orbital_def)
qed

lemma fold_replicas_of:
  assumes "\<And>x p. x \<in> set xs \<Longrightarrow> distinct (p @ G x)
             \<Longrightarrow> F x (replicas_of cell0 orb p) = replicas_of cell0 orb (p @ G x)"
      and "distinct (pcs @ concat (map G xs))"
    shows "fold F xs (replicas_of cell0 orb pcs) = replicas_of cell0 orb (pcs @ concat (map G xs))"
  using assms
proof (induction xs arbitrary: pcs)
  case Nil
  then show ?case by simp
next
  case (Cons x xs)
  have d1: "distinct (pcs @ G x)" using Cons.prems(2) by auto
  have d2: "distinct ((pcs @ G x) @ concat (map G xs))" using Cons.prems(2) by simp
  have "F x (replicas_of cell0 orb pcs) = replicas_of cell0 orb (pcs @ G x)"
    using Cons.prems(1) d1 by simp
  moreover have "fold F xs (replicas_of cell0 orb (pcs @ G x))
                 = replicas_of cell0 orb ((pcs @ G x) @ concat (map G xs))"
    using Cons.prems(1) d2 by (intro Cons.IH) auto
  ultimately show ?case by simp
qed

lemma py_range_nat: "py_range n = map int [0..<nat n]"
proof (rule nth_equalityI)
  show "length (py_range n) = length (map int [0..<nat n])"
    by (simp add: py_range_def)
  fix k assume "k < length (py_range n)"
  then have "k < nat n" by (simp add: py_range_def)
  then show "py_range n ! k = map int [0..<nat n] ! k"
    by (simp add: py_range_def)
qed

lemma distinct_concat_map:
  assumes "distinct xs" "\<And>x. x \<in> set xs \<Longrightarrow> distinct (f x)"
    "\<And>x y. x \<in> set xs \<Longrightarrow> y \<in> set xs \<Longrightarrow> x \<noteq> y \<Longrightarrow> set (f x) \<inter> set (f y) = {}"
  shows "distinct (concat (map f xs))"
  using assms
proof (induction xs)
  case Nil
  then show ?case by simp
next
  case (Cons x xs)
  have "distinct (concat (map f xs))" using Cons by (intro Cons.IH) auto
  moreover have "set (f x) \<inter> set (f y) = {}" if "y \<in> set xs" for y
    using Cons.prems(1) Cons.prems(3) [of x y] that by auto
  ultimately show ?case using Cons.prems(2) by auto
qed

lemma set_grid_ids:
  "set (grid_ids dims n) = {(i_a, i_b, i_c, i_o).
     0 \<le> i_a \<and> i_a < dims ! 0 \<and> 0 \<le> i_b \<and> i_b < dims ! 1 \<and> 0 \<le> i_c \<and> i_c < dims ! 2 \<and> i_o < n}"
  by (force simp: grid_ids_def py_range_def)

lemma distinct_py_range: "distinct (py_range n)"
  by (simp add: py_range_def)

lemma distinct_grid_ids: "distinct (grid_ids dims n)"
  unfolding grid_ids_def
  by (intro distinct_concat_map distinct_py_range)
     (auto simp: distinct_map inj_on_def)

lemma concat_map_enumerate:
  "concat (map (\<lambda>(i_o, x). [g i_o]) (enumerate 0 xs)) = map g [0..<length xs]"
proof -
  have "map (\<lambda>(i_o, x). [g i_o]) (enumerate 0 xs) = map (\<lambda>i_o. [g i_o]) (map fst (enumerate 0 xs))"
    unfolding map_map by (rule map_cong) auto
  then show ?thesis by (simp add: concat_map_singleton)
qed

lemma extend_orbitals_closed:
  "extend_orbitals prim_cell dims (no_replicas cell0)
   = replicas_of cell0 (replica_orbital prim_cell dims) (grid_ids dims (num_orb prim_cell))"
proof -
  let ?orb = "replica_orbital prim_cell dims"
  let ?ol = "orbital_list prim_cell"
  let ?C = "\<lambda>i_a i_b i_c. map (\<lambda>i_o. (i_a, i_b, i_c, i_o)) [0..<length ?ol]"
  let ?B = "\<lambda>i_a i_b. concat (map (?C i_a i_b) (py_range (dims ! 2)))"
  let ?A = "\<lambda>i_a. concat (map (?B i_a) (py_range (dims ! 1)))"
  let ?step = "\<lambda>i_a i_b i_c. \<lambda>(i_o, orbital).
        add_replica (i_a, i_b, i_c, i_o)
          (pos_ext dims (i_a, i_b, i_c) (position orbital)) (orbital.energy orbital)"
  have l0: "fold (?step i_a i_b i_c) (enumerate 0 ?ol) (replicas_of cell0 ?orb p)
            = replicas_of cell0 ?orb (p @ ?C i_a i_b i_c)"
    if "distinct (p @ ?C i_a i_b i_c)" for i_a i_b i_c p
  proof -
    have "fold (?step i_a i_b i_c) (enumerate 0 ?ol) (replicas_of cell0 ?orb p)
          = replicas_of cell0 ?orb
              (p @ concat (map (\<lambda>(i_o, orbital). [(i_a, i_b, i_c, i_o)]) (enumerate 0 ?ol)))"
    proof (rule fold_replicas_of)
      fix x q
      assume x: "x \<in> set (enumerate 0 ?ol)"
        and d: "distinct (q @ (case x of (i_o, orbital) \<Rightarrow> [(i_a, i_b, i_c, i_o)]))"
      obtain i_o orbital where xe: "x = (i_o, orbital)" by (cases x)
      have orb: "orbital = ?ol ! i_o" using x by (simp add: xe in_set_enumerate_eq)
      have "(i_a, i_b, i_c, i_o) \<notin> set q" using d by (simp add: xe)
      from add_replica_of [OF this, of ?orb cell0]
      show "?step i_a i_b i_c x (replicas_of cell0 ?orb q)
            = replicas_of cell0 ?orb (q @ (case x of (i_o, orbital) \<Rightarrow> [(i_a, i_b, i_c, i_o)]))"
        by (simp add: xe orb replica_orbital_def)
    next
      show "distinct (p @ concat (map (\<lambda>(i_o, orbital). [(i_a, i_b, i_c, i_o)]) (enumerate 0 ?ol)))"
        using that by (simp only: concat_map_enumerate)
    qed
    then show ?thesis by (simp only: concat_map_enumerate)
  qed
  have l1: "fold (\<lambda>i_c. fold (?step i_a i_b i_c) (enumerate 0 ?ol)) (py_range (dims ! 2))
              (replicas_of cell0 ?orb p)
            = replicas_of cell0 ?orb (p @ ?B i_a i_b)"
    if "distinct (p @ ?B i_a i_b)" for i_a i_b p
    by (rule fold_replicas_of [OF l0 that])
  have l2: "fold (\<lambda>i_b. fold (\<lambda>i_c. fold (?step i_a i_b i_c) (enumerate 0 ?ol))
                (py_range (dims ! 2))) (py_range (dims ! 1)) (replicas_of cell0 ?orb p)
            = replicas_of cell0 ?orb (p @ ?A i_a)"
    if "distinct (p @ ?A i_a)" for i_a p
    by (rule fold_replicas_of [OF l1 that])
  have g: "grid_ids dims (num_orb prim_cell) = concat (map ?A (py_range (dims ! 0)))"
    by (simp add: grid_ids_def num_orb_def)
  have "distinct ([] @ concat (map ?A (py_range (dims ! 0))))"
    using distinct_grid_ids [of dims "num_orb prim_cell"] by (simp only: g append_Nil)
  from fold_replicas_of [OF l2 this]
  show ?thesis
    by (simp only: extend_orbitals_def no_replicas_of [of cell0 ?orb] g append_Nil)
qed

subsection \<open>The position of a replica in the grid\<close>

lemma concat_uniform:
  assumes "\<forall>xs\<in>set xss. length xs = m"
  shows "length (concat xss) = length xss * m"
    and "i < length xss \<Longrightarrow> j < m \<Longrightarrow> concat xss ! (i * m + j) = xss ! i ! j"
  using assms
proof (induction xss arbitrary: i)
  case Nil
  { case 1 show ?case by simp }
  { case 2 then show ?case by simp }
next
  case (Cons xs xss)
  { case 1 then show ?case using Cons.IH(1) by simp }
  { case 2
    show ?case
    proof (cases i)
      case 0
      then show ?thesis using 2 by (simp add: nth_append)
    next
      case (Suc i')
      then have "concat xss ! (i' * m + j) = xss ! i' ! j"
        using 2 by (intro Cons.IH(2)) auto
      moreover have "length xs = m" using 2 by simp
      ultimately show ?thesis using Suc by (simp add: nth_append)
    qed }
qed

lemma grid_ids_nested:
  "grid_ids dims n =
     concat (map (\<lambda>ka. concat (map (\<lambda>kb. concat (map (\<lambda>kc.
        map (\<lambda>i_o. (int ka, int kb, int kc, i_o)) [0..<n])
        [0..<nat (dims ! 2)])) [0..<nat (dims ! 1)])) [0..<nat (dims ! 0)])"
  by (simp add: grid_ids_def py_range_nat comp_def)

lemma nested_nth:
  fixes na nb nc n :: nat
  defines "C \<equiv> \<lambda>ka kb kc. map (\<lambda>i_o. (int ka, int kb, int kc, i_o)) [0..<n]"
  defines "B \<equiv> \<lambda>ka kb. concat (map (C ka kb) [0..<nc])"
  defines "A \<equiv> \<lambda>ka. concat (map (B ka) [0..<nb])"
  defines "G \<equiv> concat (map A [0..<na])"
  shows "length G = na * (nb * (nc * n))"
    and "ka < na \<Longrightarrow> kb < nb \<Longrightarrow> kc < nc \<Longrightarrow> i_o < n \<Longrightarrow>
         ka * (nb * (nc * n)) + (kb * (nc * n) + (kc * n + i_o)) < na * (nb * (nc * n))
         \<and> G ! (ka * (nb * (nc * n)) + (kb * (nc * n) + (kc * n + i_o)))
           = (int ka, int kb, int kc, i_o)"
proof -
  have uB: "\<forall>xs\<in>set (map (C ka kb) [0..<nc]). length xs = n" for ka kb
    by (auto simp: C_def)
  have lB: "length (B ka kb) = nc * n" for ka kb
    unfolding B_def using concat_uniform(1) [OF uB] by simp
  have uA: "\<forall>xs\<in>set (map (B ka) [0..<nb]). length xs = nc * n" for ka
    using lB by auto
  have lA: "length (A ka) = nb * (nc * n)" for ka
    unfolding A_def using concat_uniform(1) [OF uA] by simp
  have uG: "\<forall>xs\<in>set (map A [0..<na]). length xs = nb * (nc * n)"
    using lA by auto
  show "length G = na * (nb * (nc * n))"
    unfolding G_def using concat_uniform(1) [OF uG] by simp
  assume k: "ka < na" "kb < nb" "kc < nc" "i_o < n"
  have r2: "kc * n + i_o < nc * n"
  proof -
    have "kc * n + i_o < Suc kc * n" using k(4) by simp
    also have "\<dots> \<le> nc * n" using k(3) by (intro mult_le_mono1) simp
    finally show ?thesis .
  qed
  have r1: "kb * (nc * n) + (kc * n + i_o) < nb * (nc * n)"
  proof -
    have "kb * (nc * n) + (kc * n + i_o) < Suc kb * (nc * n)" using r2 by simp
    also have "\<dots> \<le> nb * (nc * n)" using k(2) by (intro mult_le_mono1) simp
    finally show ?thesis .
  qed
  have r0: "ka * (nb * (nc * n)) + (kb * (nc * n) + (kc * n + i_o)) < na * (nb * (nc * n))"
  proof -
    have "ka * (nb * (nc * n)) + (kb * (nc * n) + (kc * n + i_o)) < Suc ka * (nb * (nc * n))"
      using r1 by simp
    also have "\<dots> \<le> na * (nb * (nc * n))" using k(1) by (intro mult_le_mono1) simp
    finally show ?thesis .
  qed
  have "G ! (ka * (nb * (nc * n)) + (kb * (nc * n) + (kc * n + i_o)))
        = map A [0..<na] ! ka ! (kb * (nc * n) + (kc * n + i_o))"
    unfolding G_def using k(1) r1 by (intro concat_uniform(2) [OF uG]) simp_all
  also have "\<dots> = A ka ! (kb * (nc * n) + (kc * n + i_o))"
    using k(1) by simp
  also have "\<dots> = map (B ka) [0..<nb] ! kb ! (kc * n + i_o)"
    unfolding A_def using k(2) r2 by (intro concat_uniform(2) [OF uA]) simp_all
  also have "\<dots> = B ka kb ! (kc * n + i_o)"
    using k(2) by simp
  also have "\<dots> = map (C ka kb) [0..<nc] ! kc ! i_o"
    unfolding B_def using k(3,4) by (intro concat_uniform(2) [OF uB]) simp_all
  also have "\<dots> = (int ka, int kb, int kc, i_o)"
    using k(3,4) by (simp add: C_def)
  finally show "ka * (nb * (nc * n)) + (kb * (nc * n) + (kc * n + i_o)) < na * (nb * (nc * n))
         \<and> G ! (ka * (nb * (nc * n)) + (kb * (nc * n) + (kc * n + i_o)))
           = (int ka, int kb, int kc, i_o)"
    using r0 by simp
qed

lemma length_grid_ids:
  "length (grid_ids dims n) = nat (dims ! 0) * nat (dims ! 1) * nat (dims ! 2) * n"
  unfolding grid_ids_nested by (simp only: nested_nth(1) mult.assoc)

lemma grid_ids_nth:
  assumes "ka < nat (dims ! 0)" "kb < nat (dims ! 1)" "kc < nat (dims ! 2)" "i_o < n"
  shows "((ka * nat (dims ! 1) + kb) * nat (dims ! 2) + kc) * n + i_o < length (grid_ids dims n)"
    and "grid_ids dims n ! (((ka * nat (dims ! 1) + kb) * nat (dims ! 2) + kc) * n + i_o)
         = (int ka, int kb, int kc, i_o)"
proof -
  let ?na = "nat (dims ! 0)" and ?nb = "nat (dims ! 1)" and ?nc = "nat (dims ! 2)"
  have idx: "((ka * ?nb + kb) * ?nc + kc) * n + i_o
             = ka * (?nb * (?nc * n)) + (kb * (?nc * n) + (kc * n + i_o))"
    by (simp add: algebra_simps)
  have len: "length (grid_ids dims n) = ?na * (?nb * (?nc * n))"
    by (simp only: length_grid_ids mult.assoc)
  note n = nested_nth(2) [OF assms, unfolded grid_ids_nested [symmetric]]
  show "((ka * ?nb + kb) * ?nc + kc) * n + i_o < length (grid_ids dims n)"
    using n by (simp only: idx len)
  show "grid_ids dims n ! (((ka * ?nb + kb) * ?nc + kc) * n + i_o) = (int ka, int kb, int kc, i_o)"
    using n by (simp only: idx)
qed

lemma grid_ids_index:
  assumes "rid \<in> set (grid_ids dims n)"
  shows "replica_index dims n rid < length (grid_ids dims n)"
    and "grid_ids dims n ! replica_index dims n rid = rid"
proof -
  obtain i_a i_b i_c i_o where rid: "rid = (i_a, i_b, i_c, i_o)"
    by (cases rid) auto
  have rng: "0 \<le> i_a" "i_a < dims ! 0" "0 \<le> i_b" "i_b < dims ! 1" "0 \<le> i_c" "i_c < dims ! 2" "i_o < n"
    using assms by (simp_all add: rid set_grid_ids)
  have "(i_a * dims ! 1 + i_b) * dims ! 2 + i_c
        = int ((nat i_a * nat (dims ! 1) + nat i_b) * nat (dims ! 2) + nat i_c)"
    using rng by simp
  then have idx: "replica_index dims n rid
             = ((nat i_a * nat (dims ! 1) + nat i_b) * nat (dims ! 2) + nat i_c) * n + i_o"
    by (simp only: replica_index_def rid prod.case nat_int)
  have k: "nat i_a < nat (dims ! 0)" "nat i_b < nat (dims ! 1)" "nat i_c < nat (dims ! 2)"
    using rng by simp_all
  show "replica_index dims n rid < length (grid_ids dims n)"
    unfolding idx by (rule grid_ids_nth(1) [OF k rng(7)])
  show "grid_ids dims n ! replica_index dims n rid = rid"
    unfolding idx using grid_ids_nth(2) [OF k rng(7)] rng by (simp add: rid)
qed

lemma orb_id_sc_grid:
  assumes "rid \<in> set (grid_ids dims n)"
  shows "orb_id_sc (replicas_of cell0 orb (grid_ids dims n)) rid = Some (replica_index dims n rid)"
proof -
  let ?g = "grid_ids dims n"
  have "map_of (zip ?g [0..<length ?g]) (?g ! replica_index dims n rid)
        = Some ([0..<length ?g] ! replica_index dims n rid)"
    using grid_ids_index(1) [OF assms] distinct_grid_ids
    by (intro map_of_zip_nth) simp_all
  then show ?thesis
    using grid_ids_index [OF assms] by (simp add: replicas_of_def)
qed

subsection \<open>The hopping loops\<close>

lemma extend_hop_loop_closed:
  assumes "\<And>hop. hop \<in> set hops \<Longrightarrow> hop_i hop = rid_orb rid
             \<Longrightarrow> sc (hop_dest dims rid hop) = Some (replica_index dims n (hop_dest dims rid hop))"
  shows "extend_hop_loop dims sc (replica_index dims n rid) rid hops extend_cell
         = Inr (extend_cell\<lparr>hopping_list := hopping_list extend_cell
                  @ map (replica_hopping dims n rid) (filter (\<lambda>hop. hop_i hop = rid_orb rid) hops)\<rparr>)"
  using assms
proof (induction hops arbitrary: extend_cell)
  case Nil
  then show ?case by simp
next
  case (Cons hop hops)
  obtain i_a i_b i_c i_o where rid: "rid = (i_a, i_b, i_c, i_o)" by (cases rid) auto
  obtain ra rb rc hi hj where ind: "index hop = (ra, rb, rc, hi, hj)" by (cases "index hop") auto
  have IH: "extend_hop_loop dims sc (replica_index dims n rid) rid hops c
         = Inr (c\<lparr>hopping_list := hopping_list c
                  @ map (replica_hopping dims n rid) (filter (\<lambda>hop. hop_i hop = rid_orb rid) hops)\<rparr>)" for c
    using Cons.prems by (intro Cons.IH) auto
  show ?case
  proof (cases "i_o = hi")
    case True
    then have "hop_i hop = rid_orb rid" by (simp add: hop_i_def rid_orb_def rid ind)
    moreover from Cons.prems [OF _ this]
    have "sc ((i_a + ra) mod dims ! 0, (i_b + rb) mod dims ! 1, (i_c + rc) mod dims ! 2, hj)
          = Some (replica_index dims n (hop_dest dims rid hop))"
      by (simp add: hop_dest_def rid ind)
    ultimately show ?thesis
      using True IH
      by (simp add: rid [symmetric]) (simp add: rid ind wrap_pbc_def add_hopping_def replica_hopping_def)
  next
    case False
    then have "hop_i hop \<noteq> rid_orb rid" by (simp add: hop_i_def rid_orb_def rid ind)
    then show ?thesis
      using False IH by (simp add: rid [symmetric]) (simp add: rid ind)
  qed
qed

lemma extend_orb_loop_closed:
  assumes "\<And>k. k \<in> set ids \<Longrightarrow> k < length pcs \<and> replica_index dims n (pcs ! k) = k"
    and "\<And>k hop. k \<in> set ids \<Longrightarrow> hop \<in> set hops \<Longrightarrow> hop_i hop = rid_orb (pcs ! k)
          \<Longrightarrow> sc (hop_dest dims (pcs ! k) hop)
              = Some (replica_index dims n (hop_dest dims (pcs ! k) hop))"
  shows "extend_orb_loop dims pcs sc hops ids extend_cell
         = Inr (extend_cell\<lparr>hopping_list := hopping_list extend_cell
              @ concat (map (\<lambda>k. map (replica_hopping dims n (pcs ! k))
                                   (filter (\<lambda>hop. hop_i hop = rid_orb (pcs ! k)) hops)) ids)\<rparr>)"
  using assms
proof (induction ids arbitrary: extend_cell)
  case Nil
  then show ?case by simp
next
  case (Cons k ids)
  have k: "k < length pcs" "replica_index dims n (pcs ! k) = k"
    using Cons.prems(1) [of k] by simp_all
  have "extend_hop_loop dims sc (replica_index dims n (pcs ! k)) (pcs ! k) hops extend_cell
        = Inr (extend_cell\<lparr>hopping_list := hopping_list extend_cell
             @ map (replica_hopping dims n (pcs ! k))
                 (filter (\<lambda>hop. hop_i hop = rid_orb (pcs ! k)) hops)\<rparr>)"
    using Cons.prems(2) [of k] by (intro extend_hop_loop_closed) simp
  then have inner: "extend_hop_loop dims sc k (pcs ! k) hops extend_cell
        = Inr (extend_cell\<lparr>hopping_list := hopping_list extend_cell
             @ map (replica_hopping dims n (pcs ! k))
                 (filter (\<lambda>hop. hop_i hop = rid_orb (pcs ! k)) hops)\<rparr>)"
    by (simp only: k(2))
  have rest: "extend_orb_loop dims pcs sc hops ids c
         = Inr (c\<lparr>hopping_list := hopping_list c
              @ concat (map (\<lambda>k. map (replica_hopping dims n (pcs ! k))
                                   (filter (\<lambda>hop. hop_i hop = rid_orb (pcs ! k)) hops)) ids)\<rparr>)" for c
    using Cons.prems by (intro Cons.IH) auto
  show ?case
    using k(1) by (simp add: inner rest)
qed

lemma map_filter_concat:
  "map f (filter P xs) = concat (map (\<lambda>x. if P x then [f x] else []) xs)"
  by (induction xs) simp_all

lemma hop_dest_in_grid:
  assumes "rid \<in> set (grid_ids dims n)" "hop_j hop < n"
  shows "hop_dest dims rid hop \<in> set (grid_ids dims n)"
proof -
  obtain i_a i_b i_c i_o where rid: "rid = (i_a, i_b, i_c, i_o)" by (cases rid) auto
  obtain ra rb rc hi hj where ind: "index hop = (ra, rb, rc, hi, hj)" by (cases "index hop") auto
  have pos: "0 < dims ! 0" "0 < dims ! 1" "0 < dims ! 2"
    using assms(1) by (auto simp: rid set_grid_ids)
  show ?thesis
    using assms(2) pos by (simp add: hop_dest_def rid ind set_grid_ids hop_j_def)
qed

lemma extend_prim_cell_closed:
  assumes "valid_cell prim_cell" "1 \<le> na" "1 \<le> nb" "1 \<le> nc"
  shows "extend_prim_cell prim_cell [na, nb, nc] =
     Inr \<lparr>lat_vec = extend_lat_vec (lat_vec prim_cell) [na, nb, nc],
          orbital_list = map (replica_orbital prim_cell [na, nb, nc])
                           (grid_ids [na, nb, nc] (num_orb prim_cell)),
          hopping_list = extend_hoppings prim_cell [na, nb, nc],
          extended = of_int (na * nb * nc)\<rparr>"
proof -
  let ?dims = "[na, nb, nc]" and ?n = "num_orb prim_cell"
  let ?g = "grid_ids ?dims ?n"
  let ?c0 = "extend_start prim_cell ?dims"
  let ?st = "replicas_of ?c0 (replica_orbital prim_cell ?dims) ?g"
  have c0: "?c0 = \<lparr>lat_vec = extend_lat_vec (lat_vec prim_cell) ?dims, orbital_list = [],
                    hopping_list = [], extended = of_int (na * nb * nc)\<rparr>"
    by (simp add: extend_start_def PrimitiveCell_init_def NM_def scale_def extend_lat_vec_def
        split: prod.splits)
  have st: "extend_orbitals prim_cell ?dims (no_replicas ?c0) = ?st"
    by (rule extend_orbitals_closed)
  have n: "num_orb (cell ?st) = length ?g"
    by (simp add: replicas_of_def num_orb_def c0)
  have idx: "k < length (orb_id_pc ?st) \<and> replica_index ?dims ?n (orb_id_pc ?st ! k) = k"
    if "k \<in> set [0..<length ?g]" for k
  proof -
    have k: "k < length ?g" using that by simp
    then have "?g ! k \<in> set ?g" by simp
    from grid_ids_index [OF this]
    have "replica_index ?dims ?n (?g ! k) = k"
      using distinct_grid_ids k by (simp add: nth_eq_iff_index_eq)
    then show ?thesis using k by (simp add: replicas_of_def)
  qed
  have look: "orb_id_sc ?st (hop_dest ?dims (orb_id_pc ?st ! k) hop)
              = Some (replica_index ?dims ?n (hop_dest ?dims (orb_id_pc ?st ! k) hop))"
    if "k \<in> set [0..<length ?g]" "hop \<in> set (hopping_list prim_cell)" for k hop
  proof -
    have "?g ! k \<in> set ?g" using that(1) by simp
    moreover have "hop_j hop < ?n" using assms(1) that(2) by (simp add: valid_cell_def)
    ultimately have "hop_dest ?dims (?g ! k) hop \<in> set ?g" by (rule hop_dest_in_grid)
    from orb_id_sc_grid [OF this]
    show ?thesis by (simp add: replicas_of_def)
  qed
  have loop: "extend_orb_loop ?dims (orb_id_pc ?st) (orb_id_sc ?st) (hopping_list prim_cell)
                [0..<length ?g] (cell ?st)
        = Inr ((cell ?st)\<lparr>hopping_list := hopping_list (cell ?st)
              @ concat (map (\<lambda>k. map (replica_hopping ?dims ?n (orb_id_pc ?st ! k))
                    (filter (\<lambda>hop. hop_i hop = rid_orb (orb_id_pc ?st ! k)) (hopping_list prim_cell)))
                  [0..<length ?g])\<rparr>)"
    using idx look by (intro extend_orb_loop_closed) auto
  have "concat (map (\<lambda>k. map (replica_hopping ?dims ?n (?g ! k))
                    (filter (\<lambda>hop. hop_i hop = rid_orb (?g ! k)) (hopping_list prim_cell)))
                  [0..<length ?g])
        = concat (map (\<lambda>rid. map (replica_hopping ?dims ?n rid)
                    (filter (\<lambda>hop. hop_i hop = rid_orb rid) (hopping_list prim_cell))) ?g)"
    using map_nth [of ?g]
      map_map [of "\<lambda>rid. map (replica_hopping ?dims ?n rid)
                    (filter (\<lambda>hop. hop_i hop = rid_orb rid) (hopping_list prim_cell))"
                  "(!) ?g" "[0..<length ?g]"]
    by (simp add: comp_def)
  also have "\<dots> = extend_hoppings prim_cell ?dims"
    by (simp add: extend_hoppings_def map_filter_concat)
  finally have hops: "concat (map (\<lambda>k. map (replica_hopping ?dims ?n (orb_id_pc ?st ! k))
                    (filter (\<lambda>hop. hop_i hop = rid_orb (orb_id_pc ?st ! k)) (hopping_list prim_cell)))
                  [0..<length ?g]) = extend_hoppings prim_cell ?dims"
    by (simp add: replicas_of_def)
  have "extend_prim_cell prim_cell ?dims
        = extend_orb_loop ?dims (orb_id_pc ?st) (orb_id_sc ?st) (hopping_list prim_cell)
                [0..<length ?g] (cell ?st)"
    using assms(2-4) by (simp add: extend_prim_cell_def correct_coord_def st n Let_def)
  also have "\<dots> = Inr ((cell ?st)\<lparr>hopping_list := hopping_list (cell ?st)
                       @ extend_hoppings prim_cell ?dims\<rparr>)"
    by (simp only: loop hops)
  also have "\<dots> = Inr \<lparr>lat_vec = extend_lat_vec (lat_vec prim_cell) ?dims,
          orbital_list = map (replica_orbital prim_cell ?dims) ?g,
          hopping_list = extend_hoppings prim_cell ?dims,
          extended = of_int (na * nb * nc)\<rparr>"
    by (simp add: replicas_of_def c0)
  finally show ?thesis .
qed

subsection \<open>The extended cell\<close>

lemma valid_graphene: "valid_cell graphene"
  by (simp add: valid_cell_def graphene_def num_orb_def mk_hop_def hop_i_def hop_j_def)

lemma num_orb_graphene: "num_orb graphene = 2"
  by (simp add: graphene_def num_orb_def)

text \<open>
  Claim C3. For a valid model with \<open>N\<close> orbitals and \<open>dim = (na, nb, nc)\<close>, every
  component at least one, the extender returns a model with \<open>na * nb * nc * N\<close>
  orbitals: for each grid cell \<open>(i_a, i_b, i_c)\<close> of
  \<open>[0, na) \<times> [0, nb) \<times> [0, nc)\<close> and each original orbital one replica, at
  \<open>(position + (i_a, i_b, i_c)) / dim\<close> component-wise and with the original's energy;
  its lattice vectors are the original's, scaled per axis by \<open>dim\<close>.
\<close>

theorem extend_prim_cell_orbitals:
  assumes "valid_cell prim_cell" "1 \<le> na" "1 \<le> nb" "1 \<le> nc"
  shows "\<exists>res. extend_prim_cell prim_cell [na, nb, nc] = Inr res
     \<and> int (num_orb res) = na * nb * nc * int (num_orb prim_cell)
     \<and> orbital_list res =
         [\<lparr>position = (case position (orbital_list prim_cell ! i_o) of (x, y, z) \<Rightarrow>
               ((x + of_int i_a) / of_int na, (y + of_int i_b) / of_int nb,
                (z + of_int i_c) / of_int nc)),
           energy = orbital.energy (orbital_list prim_cell ! i_o)\<rparr>.
          i_a \<leftarrow> [0..na - 1], i_b \<leftarrow> [0..nb - 1], i_c \<leftarrow> [0..nc - 1],
          i_o \<leftarrow> [0..<num_orb prim_cell]]
     \<and> lat_vec res = (case lat_vec prim_cell of (a, b, c) \<Rightarrow>
          (scale a (of_int na), scale b (of_int nb), scale c (of_int nc)))"
proof -
  let ?dims = "[na, nb, nc]" and ?n = "num_orb prim_cell"
  let ?res = "\<lparr>lat_vec = extend_lat_vec (lat_vec prim_cell) ?dims,
          orbital_list = map (replica_orbital prim_cell ?dims) (grid_ids ?dims ?n),
          hopping_list = extend_hoppings prim_cell ?dims,
          extended = of_int (na * nb * nc)\<rparr>"
  have run: "extend_prim_cell prim_cell ?dims = Inr ?res"
    using assms by (rule extend_prim_cell_closed)
  have "int (nat na * nat nb * nat nc * ?n) = na * nb * nc * int ?n"
    using assms(2-4) by simp
  then have count: "int (num_orb ?res) = na * nb * nc * int ?n"
    by (simp add: num_orb_def length_grid_ids)
  have orbs: "orbital_list ?res =
         [\<lparr>position = (case position (orbital_list prim_cell ! i_o) of (x, y, z) \<Rightarrow>
               ((x + of_int i_a) / of_int na, (y + of_int i_b) / of_int nb,
                (z + of_int i_c) / of_int nc)),
           energy = orbital.energy (orbital_list prim_cell ! i_o)\<rparr>.
          i_a \<leftarrow> [0..na - 1], i_b \<leftarrow> [0..nb - 1], i_c \<leftarrow> [0..nc - 1],
          i_o \<leftarrow> [0..<?n]]"
    by (simp add: grid_ids_def py_range_def map_concat comp_def replica_orbital_def pos_ext_def
        split: prod.splits)
  have lat: "lat_vec ?res = (case lat_vec prim_cell of (a, b, c) \<Rightarrow>
          (scale a (of_int na), scale b (of_int nb), scale c (of_int nc)))"
    by (simp add: extend_lat_vec_def)
  show ?thesis
    using run count orbs lat by blast
qed

theorem extend_prim_cell_orbitals_witness:
  "valid_cell graphene \<and> (1::int) \<le> 2 \<and> (1::int) \<le> 1
   \<and> (\<exists>res. extend_prim_cell graphene [2, 1, 1] = Inr res
        \<and> num_orb res = 4
        \<and> orbital_list res =
            [\<lparr>position = (0, 0, 0), energy = 0\<rparr>, \<lparr>position = (1/6, 1/3, 0), energy = 0\<rparr>,
             \<lparr>position = (1/2, 0, 0), energy = 0\<rparr>, \<lparr>position = (2/3, 1/3, 0), energy = 0\<rparr>]
        \<and> lat_vec res = ((2, 0, 0), (0, 1, 0), (0, 0, 1)))"
proof -
  have one: "(1::int) \<le> 1" and two: "(1::int) \<le> 2" by simp_all
  from extend_prim_cell_orbitals [OF valid_graphene two one one]
  obtain res where res: "extend_prim_cell graphene [2, 1, 1] = Inr res"
    and count: "int (num_orb res) = 2 * 1 * 1 * int (num_orb graphene)"
    and orbs: "orbital_list res =
         [\<lparr>position = (case position (orbital_list graphene ! i_o) of (x, y, z) \<Rightarrow>
               ((x + of_int i_a) / of_int 2, (y + of_int i_b) / of_int 1,
                (z + of_int i_c) / of_int 1)),
           energy = orbital.energy (orbital_list graphene ! i_o)\<rparr>.
          i_a \<leftarrow> [0..2 - 1], i_b \<leftarrow> [0..1 - 1], i_c \<leftarrow> [0..1 - 1],
          i_o \<leftarrow> [0..<num_orb graphene]]"
    and lat: "lat_vec res = (case lat_vec graphene of (a, b, c) \<Rightarrow>
          (scale a (of_int 2), scale b (of_int 1), scale c (of_int 1)))"
    by blast
  have "num_orb res = 4" using count by (simp add: num_orb_graphene)
  moreover have "orbital_list res =
            [\<lparr>position = (0, 0, 0), energy = 0\<rparr>, \<lparr>position = (1/6, 1/3, 0), energy = 0\<rparr>,
             \<lparr>position = (1/2, 0, 0), energy = 0\<rparr>, \<lparr>position = (2/3, 1/3, 0), energy = 0\<rparr>]"
    unfolding orbs by (simp add: num_orb_graphene upto_rec1 upt_rec) (simp add: graphene_def)
  moreover have "lat_vec res = ((2, 0, 0), (0, 1, 0), (0, 0, 1))"
    unfolding lat by (simp add: graphene_def unit_lat_def scale_def)
  ultimately show ?thesis
    using valid_graphene res by simp
qed

lemma replica_index_grid:
  "map (replica_index dims n) (grid_ids dims n) = [0..<length (grid_ids dims n)]"
proof (rule nth_equalityI)
  show "length (map (replica_index dims n) (grid_ids dims n)) = length [0..<length (grid_ids dims n)]"
    by simp
  fix k assume "k < length (map (replica_index dims n) (grid_ids dims n))"
  then have k: "k < length (grid_ids dims n)" by simp
  then have "grid_ids dims n ! k \<in> set (grid_ids dims n)" by simp
  from grid_ids_index [OF this]
  have "replica_index dims n (grid_ids dims n ! k) = k"
    using distinct_grid_ids k by (simp add: nth_eq_iff_index_eq)
  then show "map (replica_index dims n) (grid_ids dims n) ! k = [0..<length (grid_ids dims n)] ! k"
    using k by simp
qed

lemma concat_map_concat_map:
  "concat (map F (concat (map G xs))) = concat (map (\<lambda>x. concat (map F (G x))) xs)"
  by (induction xs) simp_all

lemma comprehension_grid:
  "[f rid hop. rid \<leftarrow> [(a, b, c, d). a \<leftarrow> A, b \<leftarrow> B, c \<leftarrow> C, d \<leftarrow> D], hop \<leftarrow> hops, P rid hop]
   = [f (a, b, c, d) hop. a \<leftarrow> A, b \<leftarrow> B, c \<leftarrow> C, d \<leftarrow> D, hop \<leftarrow> hops, P (a, b, c, d) hop]"
  by (simp add: concat_map_concat_map comp_def)

lemma replica_hopping_expand:
  "(if hop_i hop = i_o then [replica_hopping [na, nb, nc] n (i_a, i_b, i_c, i_o) hop] else [])
   = [\<lparr>index = ((i_a + ra) div na, (i_b + rb) div nb, (i_c + rc) div nc,
               replica_index [na, nb, nc] n (i_a, i_b, i_c, i_o),
               replica_index [na, nb, nc] n
                 ((i_a + ra) mod na, (i_b + rb) mod nb, (i_c + rc) mod nc, hj)),
       energy = hopping.energy hop\<rparr>.
      (ra, rb, rc, hi, hj) \<leftarrow> [index hop], hi = i_o]"
  by (cases "index hop") (simp add: replica_hopping_def hop_dest_def hop_i_def)

text \<open>
  Claim C4. The hoppings of the extended cell are exactly these: for every grid cell
  \<open>(i_a, i_b, i_c)\<close>, every original orbital \<open>i_o\<close> and every original hopping
  \<open>(ra, rb, rc, hi, hj)\<close> with \<open>hi = i_o\<close>, one hopping with the original energy from
  the replica of \<open>i_o\<close> in that cell to the replica of \<open>hj\<close> in the cell
  \<open>((i_a + ra) mod na, (i_b + rb) mod nb, (i_c + rc) mod nc)\<close>, with cell offset
  \<open>((i_a + ra) div na, (i_b + rb) div nb, (i_c + rc) div nc)\<close>. The orbital of the
  result at \<open>replica_index\<close> of a tuple is the replica of that tuple.
\<close>

theorem extend_prim_cell_hoppings:
  assumes "valid_cell prim_cell" "1 \<le> na" "1 \<le> nb" "1 \<le> nc"
  shows "\<exists>res. extend_prim_cell prim_cell [na, nb, nc] = Inr res
     \<and> hopping_list res =
         [\<lparr>index = ((i_a + ra) div na, (i_b + rb) div nb, (i_c + rc) div nc,
               replica_index [na, nb, nc] (num_orb prim_cell) (i_a, i_b, i_c, i_o),
               replica_index [na, nb, nc] (num_orb prim_cell)
                 ((i_a + ra) mod na, (i_b + rb) mod nb, (i_c + rc) mod nc, hj)),
           energy = hopping.energy hop\<rparr>.
          i_a \<leftarrow> [0..na - 1], i_b \<leftarrow> [0..nb - 1], i_c \<leftarrow> [0..nc - 1],
          i_o \<leftarrow> [0..<num_orb prim_cell], hop \<leftarrow> hopping_list prim_cell,
          (ra, rb, rc, hi, hj) \<leftarrow> [index hop], hi = i_o]
     \<and> map (\<lambda>rid. orbital_list res ! replica_index [na, nb, nc] (num_orb prim_cell) rid)
           (grid_ids [na, nb, nc] (num_orb prim_cell))
         = map (replica_orbital prim_cell [na, nb, nc]) (grid_ids [na, nb, nc] (num_orb prim_cell))"
proof -
  let ?dims = "[na, nb, nc]" and ?n = "num_orb prim_cell"
  let ?g = "grid_ids ?dims ?n"
  let ?res = "\<lparr>lat_vec = extend_lat_vec (lat_vec prim_cell) ?dims,
          orbital_list = map (replica_orbital prim_cell ?dims) ?g,
          hopping_list = extend_hoppings prim_cell ?dims,
          extended = of_int (na * nb * nc)\<rparr>"
  have run: "extend_prim_cell prim_cell ?dims = Inr ?res"
    using assms by (rule extend_prim_cell_closed)
  have "extend_hoppings prim_cell ?dims =
         [replica_hopping ?dims ?n (i_a, i_b, i_c, i_o) hop.
          i_a \<leftarrow> [0..na - 1], i_b \<leftarrow> [0..nb - 1], i_c \<leftarrow> [0..nc - 1],
          i_o \<leftarrow> [0..<?n], hop \<leftarrow> hopping_list prim_cell, hop_i hop = i_o]"
    unfolding extend_hoppings_def grid_ids_def comprehension_grid
    by (simp add: py_range_def rid_orb_def)
  also have "\<dots> =
         [\<lparr>index = ((i_a + ra) div na, (i_b + rb) div nb, (i_c + rc) div nc,
               replica_index ?dims ?n (i_a, i_b, i_c, i_o),
               replica_index ?dims ?n
                 ((i_a + ra) mod na, (i_b + rb) mod nb, (i_c + rc) mod nc, hj)),
           energy = hopping.energy hop\<rparr>.
          i_a \<leftarrow> [0..na - 1], i_b \<leftarrow> [0..nb - 1], i_c \<leftarrow> [0..nc - 1],
          i_o \<leftarrow> [0..<?n], hop \<leftarrow> hopping_list prim_cell,
          (ra, rb, rc, hi, hj) \<leftarrow> [index hop], hi = i_o]"
    by (simp only: replica_hopping_expand)
  finally have hops: "hopping_list ?res =
         [\<lparr>index = ((i_a + ra) div na, (i_b + rb) div nb, (i_c + rc) div nc,
               replica_index ?dims ?n (i_a, i_b, i_c, i_o),
               replica_index ?dims ?n
                 ((i_a + ra) mod na, (i_b + rb) mod nb, (i_c + rc) mod nc, hj)),
           energy = hopping.energy hop\<rparr>.
          i_a \<leftarrow> [0..na - 1], i_b \<leftarrow> [0..nb - 1], i_c \<leftarrow> [0..nc - 1],
          i_o \<leftarrow> [0..<?n], hop \<leftarrow> hopping_list prim_cell,
          (ra, rb, rc, hi, hj) \<leftarrow> [index hop], hi = i_o]"
    by simp
  have "map (\<lambda>rid. orbital_list ?res ! replica_index ?dims ?n rid) ?g
        = map ((!) (orbital_list ?res)) (map (replica_index ?dims ?n) ?g)"
    by (simp add: comp_def)
  also have "\<dots> = map ((!) (orbital_list ?res)) [0..<length (orbital_list ?res)]"
    by (simp only: replica_index_grid) simp
  also have "\<dots> = map (replica_orbital prim_cell ?dims) ?g"
    by (simp only: map_nth) simp
  finally show ?thesis
    using run hops by blast
qed

theorem extend_prim_cell_hoppings_witness:
  "valid_cell graphene \<and> (1::int) \<le> 2 \<and> (1::int) \<le> 1
   \<and> (\<exists>res. extend_prim_cell graphene [2, 1, 1] = Inr res
        \<and> hopping_list res =
            [mk_hop (0, 0, 0) 0 1 (-2.7), mk_hop (0, 0, 0) 1 2 (-2.7), mk_hop (0, 1, 0) 1 0 (-2.7),
             mk_hop (0, 0, 0) 2 3 (-2.7), mk_hop (1, 0, 0) 3 0 (-2.7), mk_hop (0, 1, 0) 3 2 (-2.7)])"
proof -
  have one: "(1::int) \<le> 1" and two: "(1::int) \<le> 2" by simp_all
  from extend_prim_cell_hoppings [OF valid_graphene two one one]
  obtain res where res: "extend_prim_cell graphene [2, 1, 1] = Inr res"
    and hops: "hopping_list res =
         [\<lparr>index = ((i_a + ra) div 2, (i_b + rb) div 1, (i_c + rc) div 1,
               replica_index [2, 1, 1] (num_orb graphene) (i_a, i_b, i_c, i_o),
               replica_index [2, 1, 1] (num_orb graphene)
                 ((i_a + ra) mod 2, (i_b + rb) mod 1, (i_c + rc) mod 1, hj)),
           energy = hopping.energy hop\<rparr>.
          i_a \<leftarrow> [0..2 - 1], i_b \<leftarrow> [0..1 - 1], i_c \<leftarrow> [0..1 - 1],
          i_o \<leftarrow> [0..<num_orb graphene], hop \<leftarrow> hopping_list graphene,
          (ra, rb, rc, hi, hj) \<leftarrow> [index hop], hi = i_o]"
    by blast
  have "hopping_list res =
            [mk_hop (0, 0, 0) 0 1 (-2.7), mk_hop (0, 0, 0) 1 2 (-2.7), mk_hop (0, 1, 0) 1 0 (-2.7),
             mk_hop (0, 0, 0) 2 3 (-2.7), mk_hop (1, 0, 0) 3 0 (-2.7), mk_hop (0, 1, 0) 3 2 (-2.7)]"
    unfolding hops
    by (simp add: num_orb_graphene upto_rec1 upt_rec)
       (simp add: graphene_def mk_hop_def replica_index_def num_orb_def)
  then show ?thesis
    using valid_graphene res by simp
qed


lemma sum_list_indicator:
  "sum_list (map (\<lambda>i_o. if k = i_o then 1 else 0) [0..<n]) = (if k < n then 1 else (0::nat))"
  by (induction n) auto

lemma length_grouped:
  assumes "\<forall>x\<in>set xs. f x < n"
  shows "length (concat (map (\<lambda>i_o. filter (\<lambda>x. f x = i_o) xs) [0..<n])) = length xs"
  using assms
proof (induction xs)
  case Nil
  then show ?case by (simp add: length_concat comp_def)
next
  case (Cons x xs)
  have "sum_list (map (\<lambda>i_o. length (filter (\<lambda>x. f x = i_o) (x # xs))) [0..<n])
        = sum_list (map (\<lambda>i_o. (if f x = i_o then 1 else 0) + length (filter (\<lambda>x. f x = i_o) xs)) [0..<n])"
    by (intro arg_cong [where f = sum_list] map_cong) auto
  also have "\<dots> = (if f x < n then 1 else 0)
                    + sum_list (map (\<lambda>i_o. length (filter (\<lambda>x. f x = i_o) xs)) [0..<n])"
    by (simp add: sum_list_addf sum_list_indicator)
  finally show ?case
    using Cons by (simp add: length_concat comp_def)
qed

lemma grid_ids_unit: "grid_ids [1, 1, 1] n = map (\<lambda>i_o. (0, 0, 0, i_o)) [0..<n]"
  by (simp add: grid_ids_def py_range_def)

lemma replica_orbital_unit:
  "replica_orbital prim_cell [1, 1, 1] (0, 0, 0, i_o) = orbital_list prim_cell ! i_o"
  by (simp add: replica_orbital_def pos_ext_def split: prod.splits)

lemma replica_hopping_unit:
  "hop_i hop = i_o \<Longrightarrow> replica_hopping [1, 1, 1] n (0, 0, 0, i_o) hop = hop"
  by (cases "index hop")
     (auto simp: replica_hopping_def hop_dest_def replica_index_def hop_i_def intro: hopping.equality)

text \<open>
  Claim C5. For a valid model, the extension with \<open>dim = (1, 1, 1)\<close> has the same
  number of orbitals, the same number of hoppings and the same orbital energies; indeed
  the same orbitals in the same order, and the same hoppings grouped by source orbital.
\<close>

theorem extend_prim_cell_unit:
  assumes "valid_cell prim_cell"
  shows "\<exists>res. extend_prim_cell prim_cell [1, 1, 1] = Inr res
     \<and> num_orb res = num_orb prim_cell
     \<and> length (hopping_list res) = length (hopping_list prim_cell)
     \<and> map orbital.energy (orbital_list res) = map orbital.energy (orbital_list prim_cell)
     \<and> orbital_list res = orbital_list prim_cell
     \<and> hopping_list res = concat (map (\<lambda>i_o. filter (\<lambda>hop. hop_i hop = i_o) (hopping_list prim_cell))
                                   [0..<num_orb prim_cell])"
proof -
  let ?dims = "[1, 1, 1] :: int list" and ?n = "num_orb prim_cell"
  let ?res = "\<lparr>lat_vec = extend_lat_vec (lat_vec prim_cell) ?dims,
          orbital_list = map (replica_orbital prim_cell ?dims) (grid_ids ?dims ?n),
          hopping_list = extend_hoppings prim_cell ?dims,
          extended = of_int (1 * 1 * 1)\<rparr>"
  have run: "extend_prim_cell prim_cell ?dims = Inr ?res"
    using assms by (intro extend_prim_cell_closed) simp_all
  have orbs: "orbital_list ?res = orbital_list prim_cell"
    by (simp add: grid_ids_unit comp_def replica_orbital_unit num_orb_def map_nth)
  have "map (replica_hopping ?dims ?n (0, 0, 0, i_o)) (filter (\<lambda>hop. hop_i hop = i_o) hs)
        = filter (\<lambda>hop. hop_i hop = i_o) hs" for i_o hs
    by (rule map_idI) (simp add: replica_hopping_unit)
  then have hops: "hopping_list ?res
      = concat (map (\<lambda>i_o. filter (\<lambda>hop. hop_i hop = i_o) (hopping_list prim_cell)) [0..<?n])"
    by (simp add: extend_hoppings_def grid_ids_unit comp_def rid_orb_def
        map_filter_concat [symmetric])
  have "length (hopping_list ?res) = length (hopping_list prim_cell)"
    unfolding hops using assms by (intro length_grouped) (simp add: valid_cell_def)
  then show ?thesis
    using run orbs hops by (simp add: num_orb_def)
qed

theorem extend_prim_cell_unit_witness:
  "valid_cell graphene
   \<and> (\<exists>res. extend_prim_cell graphene [1, 1, 1] = Inr res
        \<and> num_orb res = 2 \<and> length (hopping_list res) = 3
        \<and> map orbital.energy (orbital_list res) = [0, 0])"
proof -
  from extend_prim_cell_unit [OF valid_graphene]
  obtain res where "extend_prim_cell graphene [1, 1, 1] = Inr res"
    "num_orb res = num_orb graphene"
    "length (hopping_list res) = length (hopping_list graphene)"
    "map orbital.energy (orbital_list res) = map orbital.energy (orbital_list graphene)"
    by blast
  then show ?thesis
    using valid_graphene by (simp add: graphene_def num_orb_def)
qed

text \<open>
  Claim C9. The extender numbers the replicas lexicographically in
  \<open>(i_a, i_b, i_c, i_o)\<close>: after the orbital loops, the dictionary maps the replica of
  orbital \<open>i_o\<close> in grid cell \<open>(i_a, i_b, i_c)\<close> to
  \<open>((i_a * nb + i_b) * nc + i_c) * N + i_o\<close>, the list \<open>orb_id_pc\<close> holds the
  tuple at that position, and the cell under construction holds the replica there. For
  \<open>dim = (1, 1, 1)\<close> orbital \<open>i_o\<close> keeps the index \<open>i_o\<close>.
\<close>

theorem extend_replica_index_lexicographic:
  assumes "0 \<le> i_a" "i_a < na" "0 \<le> i_b" "i_b < nb" "0 \<le> i_c" "i_c < nc"
    and "i_o < num_orb prim_cell"
  shows "orb_id_sc (extend_orbitals prim_cell [na, nb, nc]
                     (no_replicas (extend_start prim_cell [na, nb, nc]))) (i_a, i_b, i_c, i_o)
           = Some (nat ((i_a * nb + i_b) * nc + i_c) * num_orb prim_cell + i_o)
     \<and> orb_id_pc (extend_orbitals prim_cell [na, nb, nc]
                     (no_replicas (extend_start prim_cell [na, nb, nc])))
           ! (nat ((i_a * nb + i_b) * nc + i_c) * num_orb prim_cell + i_o) = (i_a, i_b, i_c, i_o)
     \<and> orbital_list (cell (extend_orbitals prim_cell [na, nb, nc]
                     (no_replicas (extend_start prim_cell [na, nb, nc]))))
           ! (nat ((i_a * nb + i_b) * nc + i_c) * num_orb prim_cell + i_o)
         = \<lparr>position = pos_ext [na, nb, nc] (i_a, i_b, i_c) (position (orbital_list prim_cell ! i_o)),
            energy = orbital.energy (orbital_list prim_cell ! i_o)\<rparr>
     \<and> orb_id_sc (extend_orbitals prim_cell [1, 1, 1]
                     (no_replicas (extend_start prim_cell [1, 1, 1]))) (0, 0, 0, i_o) = Some i_o"
proof -
  let ?dims = "[na, nb, nc]" and ?n = "num_orb prim_cell"
  let ?rid = "(i_a, i_b, i_c, i_o)"
  let ?k = "nat ((i_a * nb + i_b) * nc + i_c) * ?n + i_o"
  have st: "extend_orbitals prim_cell dims (no_replicas (extend_start prim_cell dims))
            = replicas_of (extend_start prim_cell dims) (replica_orbital prim_cell dims)
                (grid_ids dims ?n)" for dims
    by (rule extend_orbitals_closed)
  have mem: "?rid \<in> set (grid_ids ?dims ?n)"
    using assms by (simp add: set_grid_ids)
  have k: "replica_index ?dims ?n ?rid = ?k"
    by (simp add: replica_index_def)
  have 1: "orb_id_sc (replicas_of (extend_start prim_cell ?dims) (replica_orbital prim_cell ?dims)
             (grid_ids ?dims ?n)) ?rid = Some ?k"
    using orb_id_sc_grid [OF mem] by (simp only: k)
  have lt: "?k < length (grid_ids ?dims ?n)" and nth: "grid_ids ?dims ?n ! ?k = ?rid"
    using grid_ids_index [OF mem] by (simp_all only: k)
  have 2: "orb_id_pc (replicas_of (extend_start prim_cell ?dims) (replica_orbital prim_cell ?dims)
             (grid_ids ?dims ?n)) ! ?k = ?rid"
    using nth by (simp add: replicas_of_def)
  have "orbital_list (extend_start prim_cell ?dims) = []"
    by (simp add: extend_start_def PrimitiveCell_init_def Let_def split: prod.splits)
  then have 3: "orbital_list (cell (replicas_of (extend_start prim_cell ?dims)
             (replica_orbital prim_cell ?dims) (grid_ids ?dims ?n))) ! ?k
         = \<lparr>position = pos_ext ?dims (i_a, i_b, i_c) (position (orbital_list prim_cell ! i_o)),
            energy = orbital.energy (orbital_list prim_cell ! i_o)\<rparr>"
    using lt nth by (simp add: replicas_of_def replica_orbital_def)
  have "(0, 0, 0, i_o) \<in> set (grid_ids [1, 1, 1] ?n)"
    using assms(7) by (simp add: set_grid_ids)
  from orb_id_sc_grid [OF this]
  have 4: "orb_id_sc (replicas_of (extend_start prim_cell [1, 1, 1])
             (replica_orbital prim_cell [1, 1, 1]) (grid_ids [1, 1, 1] ?n)) (0, 0, 0, i_o) = Some i_o"
    by (simp add: replica_index_def)
  show ?thesis
    using 1 2 3 4 by (simp only: st)
qed


theorem extend_replica_index_lexicographic_witness:
  "(0::int) \<le> 1 \<and> (1::int) < 2 \<and> (0::int) \<le> 0 \<and> (0::int) < 1 \<and> 1 < num_orb graphene
   \<and> orb_id_sc (extend_orbitals graphene [2, 1, 1] (no_replicas (extend_start graphene [2, 1, 1])))
        (1, 0, 0, 1) = Some 3
   \<and> orb_id_pc (extend_orbitals graphene [2, 1, 1] (no_replicas (extend_start graphene [2, 1, 1])))
        ! 3 = (1, 0, 0, 1)
   \<and> orb_id_sc (extend_orbitals graphene [1, 1, 1] (no_replicas (extend_start graphene [1, 1, 1])))
        (0, 0, 0, 1) = Some 1"
proof -
  have h: "(0::int) \<le> 1" "(1::int) < 2" "(0::int) \<le> 0" "(0::int) < 1" "1 < num_orb graphene"
    by (simp_all add: num_orb_graphene)
  have k: "nat ((1 * 1 + 0) * 1 + 0) * num_orb graphene + 1 = 3"
    by (simp add: num_orb_graphene)
  show ?thesis
    using h extend_replica_index_lexicographic [OF h(1,2) h(3,4) h(3,4) h(5), unfolded k]
    by simp
qed

section \<open>Properties of \<^verbatim>\<open>reshape_prim_cell\<close>\<close>

subsection \<open>The kept orbitals\<close>

lemma enumerate_nth: "enumerate 0 xs = map (\<lambda>k. (k, xs ! k)) [0..<length xs]"
  using enumerate_map_upt [of 0 "\<lambda>k. xs ! k" "length xs"] by (simp add: map_nth)

lemma distinct_kept_ids: "distinct (kept_ids prim_cell conv_mat origin delta rng)"
proof -
  obtain lo0 hi0 lo1 hi1 lo2 hi2 where rng: "rng = ((lo0, hi0), (lo1, hi1), (lo2, hi2))"
    by (metis prod.collapse)
  show ?thesis
    unfolding kept_ids_def rng prod.case
    by (intro distinct_concat_map distinct_upto)
       (auto simp: distinct_map inj_on_def intro!: distinct_concat_map)
qed

lemma reshape_orbitals_closed:
  "reshape_orbitals prim_cell conv_mat origin delta rng (no_replicas cell0)
   = replicas_of cell0 (kept_orbital prim_cell conv_mat origin delta)
       (kept_ids prim_cell conv_mat origin delta rng)"
proof -
  obtain lo0 hi0 lo1 hi1 lo2 hi2 where rng: "rng = ((lo0, hi0), (lo1, hi1), (lo2, hi2))"
    by (metis prod.collapse)
  let ?orb = "kept_orbital prim_cell conv_mat origin delta"
  let ?ol = "orbital_list prim_cell"
  let ?keep = "\<lambda>i_a i_b i_c i_o. get_cell_index (res_pos_of conv_mat origin delta (i_a, i_b, i_c)
                             (position (?ol ! i_o))) = (0, 0, 0)"
  let ?G = "\<lambda>i_a i_b i_c. \<lambda>(i_o, pos::vec3). if ?keep i_a i_b i_c i_o then [(i_a, i_b, i_c, i_o)] else []"
  let ?C = "\<lambda>i_a i_b i_c. concat (map (\<lambda>i_o. if ?keep i_a i_b i_c i_o then [(i_a, i_b, i_c, i_o)] else [])
                                  [0..<length ?ol])"
  let ?B = "\<lambda>i_a i_b. concat (map (?C i_a i_b) [lo2..hi2])"
  let ?A = "\<lambda>i_a. concat (map (?B i_a) [lo1..hi1])"
  let ?step = "\<lambda>i_a i_b i_c. \<lambda>(i_o, pos) st.
        let res_pos = res_pos_of conv_mat origin delta (i_a, i_b, i_c) pos;
            res_rn = get_cell_index res_pos
        in if res_rn = (0, 0, 0)
           then add_replica (i_a, i_b, i_c, i_o) res_pos (orb_eng prim_cell ! i_o) st
           else st"
  have GC: "concat (map (?G i_a i_b i_c) (enumerate 0 (orb_pos prim_cell))) = ?C i_a i_b i_c"
    for i_a i_b i_c
    by (simp add: enumerate_nth orb_pos_def comp_def)
  have l0: "fold (?step i_a i_b i_c) (enumerate 0 (orb_pos prim_cell)) (replicas_of cell0 ?orb p)
            = replicas_of cell0 ?orb (p @ ?C i_a i_b i_c)"
    if "distinct (p @ ?C i_a i_b i_c)" for i_a i_b i_c p
  proof -
    have "fold (?step i_a i_b i_c) (enumerate 0 (orb_pos prim_cell)) (replicas_of cell0 ?orb p)
          = replicas_of cell0 ?orb
              (p @ concat (map (?G i_a i_b i_c) (enumerate 0 (orb_pos prim_cell))))"
    proof (rule fold_replicas_of)
      fix x q
      assume x: "x \<in> set (enumerate 0 (orb_pos prim_cell))"
        and d: "distinct (q @ ?G i_a i_b i_c x)"
      obtain i_o pos where xe: "x = (i_o, pos)" by (cases x)
      have io: "i_o < length ?ol" and pos: "pos = position (?ol ! i_o)"
        using x by (auto simp: xe in_set_enumerate_eq orb_pos_def)
      show "?step i_a i_b i_c x (replicas_of cell0 ?orb q)
            = replicas_of cell0 ?orb (q @ ?G i_a i_b i_c x)"
      proof (cases "?keep i_a i_b i_c i_o")
        case True
        then have "(i_a, i_b, i_c, i_o) \<notin> set q" using d by (simp add: xe)
        from add_replica_of [OF this, of ?orb cell0]
        show ?thesis using True io
          by (simp add: xe pos kept_orbital_def orb_eng_def)
      next
        case False
        then show ?thesis by (simp add: xe pos)
      qed
    next
      show "distinct (p @ concat (map (?G i_a i_b i_c) (enumerate 0 (orb_pos prim_cell))))"
        using that by (simp only: GC)
    qed
    then show ?thesis by (simp only: GC)
  qed
  have l1: "fold (\<lambda>i_c. fold (?step i_a i_b i_c) (enumerate 0 (orb_pos prim_cell))) [lo2..hi2]
              (replicas_of cell0 ?orb p)
            = replicas_of cell0 ?orb (p @ ?B i_a i_b)"
    if "distinct (p @ ?B i_a i_b)" for i_a i_b p
    by (rule fold_replicas_of [OF l0 that])
  have l2: "fold (\<lambda>i_b. fold (\<lambda>i_c. fold (?step i_a i_b i_c) (enumerate 0 (orb_pos prim_cell)))
                [lo2..hi2]) [lo1..hi1] (replicas_of cell0 ?orb p)
            = replicas_of cell0 ?orb (p @ ?A i_a)"
    if "distinct (p @ ?A i_a)" for i_a p
    by (rule fold_replicas_of [OF l1 that])
  have g: "kept_ids prim_cell conv_mat origin delta ((lo0, hi0), (lo1, hi1), (lo2, hi2))
           = concat (map ?A [lo0..hi0])"
    by (simp add: kept_ids_def num_orb_def)
  have "distinct ([] @ concat (map ?A [lo0..hi0]))"
    using distinct_kept_ids [of prim_cell conv_mat origin delta rng]
    by (simp only: rng g append_Nil)
  from fold_replicas_of [OF l2 this]
  show ?thesis
    by (simp only: reshape_orbitals_def rng prod.case no_replicas_of [of cell0 ?orb] g append_Nil)
qed

subsection \<open>The hopping loops\<close>

lemma reshape_match_loop_closed:
  assumes "\<And>rid. rid \<in> set cands \<Longrightarrow> rid_orb rid = hj
             \<Longrightarrow> \<exists>k. sc rid = Some k \<and> k < length res_orb_pos"
  shows "reshape_match_loop sc res_orb_pos pos_tol hj res_pos res_rn id_sc_i e cands res_cell
         = Inr (res_cell\<lparr>hopping_list := hopping_list res_cell
                  @ match_entries sc res_orb_pos pos_tol hj res_pos res_rn id_sc_i e cands\<rparr>)"
  using assms
proof (induction cands arbitrary: res_cell)
  case Nil
  then show ?case by (simp add: match_entries_def)
next
  case (Cons rid cands)
  have IH: "reshape_match_loop sc res_orb_pos pos_tol hj res_pos res_rn id_sc_i e cands c
         = Inr (c\<lparr>hopping_list := hopping_list c
                  @ match_entries sc res_orb_pos pos_tol hj res_pos res_rn id_sc_i e cands\<rparr>)" for c
    using Cons.prems by (intro Cons.IH) auto
  show ?case
  proof (cases "rid_orb rid = hj")
    case True
    with Cons.prems [of rid] obtain k where k: "sc rid = Some k" "k < length res_orb_pos"
      by auto
    show ?thesis
      using True k by (simp add: IH match_entries_def add_hopping_def mk_hop_def split: prod.splits)
  next
    case False
    then show ?thesis by (simp add: IH match_entries_def)
  qed
qed

lemma reshape_hop_loop_closed:
  assumes "\<And>rid. rid \<in> set pcs \<Longrightarrow> \<exists>k. sc rid = Some k \<and> k < length res_orb_pos"
    and "\<And>i_h ra rb rc hj. (i_h, (ra, rb, rc, rid_orb id_pc_i, hj)) \<in> set hops
           \<Longrightarrow> hj < length prim_orb_pos"
  shows "reshape_hop_loop conv_mat origin delta pos_tol prim_orb_pos prim_hop_eng pcs sc res_orb_pos
           id_sc_i id_pc_i hops res_cell
         = Inr (res_cell\<lparr>hopping_list := hopping_list res_cell
              @ concat (map (hop_entries conv_mat origin delta pos_tol prim_orb_pos prim_hop_eng pcs sc
                               res_orb_pos id_sc_i id_pc_i) hops)\<rparr>)"
  using assms(2)
proof (induction hops arbitrary: res_cell)
  case Nil
  then show ?case by simp
next
  case (Cons ih hops)
  obtain i_h ra rb rc hi hj where ih: "ih = (i_h, (ra, rb, rc, hi, hj))"
    by (metis prod.collapse)
  obtain i_a i_b i_c i_o where rid: "id_pc_i = (i_a, i_b, i_c, i_o)"
    by (metis prod.collapse)
  have IH: "reshape_hop_loop conv_mat origin delta pos_tol prim_orb_pos prim_hop_eng pcs sc res_orb_pos
           id_sc_i id_pc_i hops c
         = Inr (c\<lparr>hopping_list := hopping_list c
              @ concat (map (hop_entries conv_mat origin delta pos_tol prim_orb_pos prim_hop_eng pcs sc
                               res_orb_pos id_sc_i id_pc_i) hops)\<rparr>)" for c
  proof (rule Cons.IH)
    fix i_h ra rb rc hj
    assume "(i_h, ra, rb, rc, rid_orb id_pc_i, hj) \<in> set hops"
    then show "hj < length prim_orb_pos"
      using Cons.prems [of i_h ra rb rc hj] by simp
  qed
  note M = reshape_match_loop_closed [of pcs hj sc res_orb_pos, OF assms(1)]
  show ?case
  proof (cases "i_o = hi")
    case True
    then have "hj < length prim_orb_pos"
      using Cons.prems [of i_h ra rb rc hj] by (simp add: ih rid rid_orb_def)
    then show ?thesis
      using True
      by (simp add: ih) (simp add: rid IH [unfolded rid True] M hop_entries_def Let_def)
  next
    case False
    then show ?thesis
      by (simp add: ih) (simp add: rid IH [unfolded rid] hop_entries_def)
  qed
qed

lemma reshape_orb_loop_closed:
  assumes "\<And>rid. rid \<in> set pcs \<Longrightarrow> \<exists>k. sc rid = Some k \<and> k < length res_orb_pos"
    and "\<And>i_h ra rb rc hi hj. (i_h, (ra, rb, rc, hi, hj)) \<in> set hops \<Longrightarrow> hj < length prim_orb_pos"
    and "\<And>k. k \<in> set ids \<Longrightarrow> k < length pcs"
  shows "reshape_orb_loop conv_mat origin delta pos_tol prim_orb_pos prim_hop_eng pcs sc res_orb_pos
           hops ids res_cell
         = Inr (res_cell\<lparr>hopping_list := hopping_list res_cell
              @ concat (map (\<lambda>id_sc_i. concat (map
                   (hop_entries conv_mat origin delta pos_tol prim_orb_pos prim_hop_eng pcs sc
                      res_orb_pos id_sc_i (pcs ! id_sc_i)) hops)) ids)\<rparr>)"
  using assms(3)
proof (induction ids arbitrary: res_cell)
  case Nil
  then show ?case by simp
next
  case (Cons k ids)
  have k: "k < length pcs" using Cons.prems [of k] by simp
  have IH: "reshape_orb_loop conv_mat origin delta pos_tol prim_orb_pos prim_hop_eng pcs sc res_orb_pos
           hops ids c
         = Inr (c\<lparr>hopping_list := hopping_list c
              @ concat (map (\<lambda>id_sc_i. concat (map
                   (hop_entries conv_mat origin delta pos_tol prim_orb_pos prim_hop_eng pcs sc
                      res_orb_pos id_sc_i (pcs ! id_sc_i)) hops)) ids)\<rparr>)" for c
    using Cons.prems by (intro Cons.IH) auto
  have H: "reshape_hop_loop conv_mat origin delta pos_tol prim_orb_pos prim_hop_eng pcs sc res_orb_pos
           k (pcs ! k) hops res_cell
         = Inr (res_cell\<lparr>hopping_list := hopping_list res_cell
              @ concat (map (hop_entries conv_mat origin delta pos_tol prim_orb_pos prim_hop_eng pcs sc
                               res_orb_pos k (pcs ! k)) hops)\<rparr>)"
    using assms(1,2) by (intro reshape_hop_loop_closed) auto
  show ?case
    using k by (simp add: H IH)
qed

lemma map_filter_enumerate:
  assumes "\<And>j. j < length xs \<Longrightarrow> f (xs ! j) = g (j, xs ! j)"
    and "\<And>j. j < length xs \<Longrightarrow> P (xs ! j) = Q (j, xs ! j)"
  shows "map f (filter P xs) = map g (filter Q (enumerate 0 xs))"
  using assms
proof (induction xs rule: rev_induct)
  case Nil
  then show ?case by simp
next
  case (snoc x xs)
  have "map f (filter P xs) = map g (filter Q (enumerate 0 xs))"
  proof (rule snoc.IH)
    fix j assume j: "j < length xs"
    show "f (xs ! j) = g (j, xs ! j)" using snoc.prems(1) [of j] j by (simp add: nth_append)
    show "P (xs ! j) = Q (j, xs ! j)" using snoc.prems(2) [of j] j by (simp add: nth_append)
  qed
  moreover have "f x = g (length xs, x)" "P x = Q (length xs, x)"
    using snoc.prems(1) [of "length xs"] snoc.prems(2) [of "length xs"] by simp_all
  ultimately show ?case by (simp add: enumerate_append_eq)
qed

lemma concat_map_nth:
  "concat (map F xs) = concat (map (\<lambda>k. F (xs ! k)) [0..<length xs])"
proof -
  have "map F xs = map F (map ((!) xs) [0..<length xs])" by (simp only: map_nth)
  then show ?thesis by (simp add: comp_def)
qed

lemma match_entries_closed:
  assumes "distinct pcs"
  shows "match_entries (map_of (zip pcs [0..<length pcs])) (map (position \<circ> orb) pcs)
           pos_tol hj w res_rn k e pcs
         = map (\<lambda>(id_sc_j, id_pc_j). mk_hop res_rn k id_sc_j e)
             (filter (\<lambda>(id_sc_j, id_pc_j). rid_orb id_pc_j = hj
                        \<and> norm3 (vsub (position (orb id_pc_j)) w) \<le> pos_tol) (enumerate 0 pcs))"
proof -
  have idx: "the (map_of (zip pcs [0..<length pcs]) (pcs ! j)) = j" if "j < length pcs" for j
    using map_of_zip_nth [of pcs "[0..<length pcs]" j] assms that by simp
  show ?thesis
    unfolding match_entries_def
    by (rule map_filter_enumerate) (simp_all add: idx)
qed

lemma hop_entries_closed:
  assumes "distinct pcs" "k < length pcs" "hop_j hop < num_orb prim_cell"
  shows "hop_entries conv_mat origin delta pos_tol (orb_pos prim_cell) prim_hop_eng pcs
           (map_of (zip pcs [0..<length pcs]))
           (map (position \<circ> kept_orbital prim_cell conv_mat origin delta) pcs)
           k (pcs ! k) (h, index hop)
         = (if hop_i hop = rid_orb (pcs ! k)
            then map (\<lambda>(id_sc_j, id_pc_j).
                        mk_hop (hop_res_rn prim_cell conv_mat origin delta (pcs ! k) hop) k id_sc_j
                          (prim_hop_eng ! h))
                   (hop_matches prim_cell conv_mat origin delta pos_tol pcs (pcs ! k) hop)
            else [])"
proof -
  obtain i_a i_b i_c i_o where rid: "pcs ! k = (i_a, i_b, i_c, i_o)"
    by (metis prod.collapse)
  obtain ra rb rc hi hj where ind: "index hop = (ra, rb, rc, hi, hj)"
    by (metis prod.collapse)
  have hj: "hj < length (orbital_list prim_cell)"
    using assms(3) by (simp add: hop_j_def ind num_orb_def)
  show ?thesis
    using hj
    by (simp add: hop_entries_def rid ind Let_def match_entries_closed [OF assms(1)]
        hop_matches_def hop_res_rn_def hop_wrapped_def hop_res_pos_def hop_i_def hop_j_def
        rid_orb_def orb_pos_def)
qed

lemma reshape_hoppings_concat:
  "reshape_hoppings prim_cell conv_mat origin delta pos_tol pcs
   = concat (map (\<lambda>k. concat (map (\<lambda>h.
        if hop_i (hopping_list prim_cell ! h) = rid_orb (pcs ! k)
        then map (\<lambda>(id_sc_j, id_pc_j).
                   mk_hop (hop_res_rn prim_cell conv_mat origin delta (pcs ! k) (hopping_list prim_cell ! h))
                     k id_sc_j (hopping.energy (hopping_list prim_cell ! h)))
               (hop_matches prim_cell conv_mat origin delta pos_tol pcs (pcs ! k)
                  (hopping_list prim_cell ! h))
        else []) [0..<length (hopping_list prim_cell)])) [0..<length pcs])"
proof -
  let ?F = "\<lambda>k rid hop. if hop_i hop = rid_orb rid
        then map (\<lambda>(id_sc_j, id_pc_j).
                   mk_hop (hop_res_rn prim_cell conv_mat origin delta rid hop) k id_sc_j
                     (hopping.energy hop))
               (hop_matches prim_cell conv_mat origin delta pos_tol pcs rid hop)
        else []"
  have "reshape_hoppings prim_cell conv_mat origin delta pos_tol pcs
        = concat (map (\<lambda>(k, rid). concat (map (?F k rid) (hopping_list prim_cell))) (enumerate 0 pcs))"
    unfolding reshape_hoppings_def
    by (intro arg_cong [where f = concat] map_cong refl)
  also have "\<dots> = concat (map (\<lambda>k. concat (map (?F k (pcs ! k)) (hopping_list prim_cell)))
                      [0..<length pcs])"
    by (simp add: enumerate_nth comp_def)
  also have "\<dots> = concat (map (\<lambda>k. concat (map (\<lambda>h. ?F k (pcs ! k) (hopping_list prim_cell ! h))
                      [0..<length (hopping_list prim_cell)])) [0..<length pcs])"
    by (subst concat_map_nth [of "?F _ _" "hopping_list prim_cell"]) (rule refl)
  finally show ?thesis .
qed

subsection \<open>The reshaped cell\<close>

lemma reshape_core_closed:
  assumes "valid_cell prim_cell" "rn_range_fits (rn_range_loop lat_frac)"
  shows "reshape_core prim_cell lat_frac conv_mat origin delta pos_tol
         = Inr (reshape_result prim_cell lat_frac conv_mat origin delta pos_tol)"
proof -
  let ?rng = "rn_range_pad (rn_range_loop lat_frac)"
  let ?pcs = "kept_ids prim_cell conv_mat origin delta ?rng"
  let ?orb = "kept_orbital prim_cell conv_mat origin delta"
  let ?c0 = "PrimitiveCell_init (lat_cart lat_frac (lat_vec prim_cell)) 1"
  let ?st = "replicas_of ?c0 ?orb ?pcs"
  let ?sc = "map_of (zip ?pcs [0..<length ?pcs])"
  let ?rop = "map (position \<circ> ?orb) ?pcs"
  let ?hl = "hopping_list prim_cell"
  have c0: "?c0 = \<lparr>lat_vec = lat_cart lat_frac (lat_vec prim_cell), orbital_list = [],
                    hopping_list = [], extended = 1\<rparr>"
    by (simp add: PrimitiveCell_init_def scale_def split: prod.splits)
  have st: "reshape_orbitals prim_cell conv_mat origin delta ?rng (no_replicas ?c0) = ?st"
    by (rule reshape_orbitals_closed)
  have d: "distinct ?pcs" by (rule distinct_kept_ids)
  have parts: "orb_id_pc ?st = ?pcs" "orb_id_sc ?st = ?sc" "orb_pos (cell ?st) = ?rop"
    "num_orb (cell ?st) = length ?pcs"
    by (simp_all add: replicas_of_def orb_pos_def num_orb_def c0)
  have look: "\<exists>k. ?sc rid = Some k \<and> k < length ?rop" if "rid \<in> set ?pcs" for rid
  proof -
    from that obtain k where k: "k < length ?pcs" "?pcs ! k = rid"
      by (auto simp: in_set_conv_nth)
    then have "?sc rid = Some k"
      using map_of_zip_nth [of ?pcs "[0..<length ?pcs]" k] d by auto
    then show ?thesis using k by simp
  qed
  have hj: "hj < length (orb_pos prim_cell)"
    if "(i_h, (ra, rb, rc, hi, hj)) \<in> set (enumerate 0 (hop_ind prim_cell))" for i_h ra rb rc hi hj
  proof -
    from that have "i_h < length (hop_ind prim_cell)"
      "hop_ind prim_cell ! i_h = (ra, rb, rc, hi, hj)"
      by (simp_all add: in_set_enumerate_eq)
    then have "(ra, rb, rc, hi, hj) \<in> set (hop_ind prim_cell)"
      using nth_mem by fastforce
    then obtain hop where "hop \<in> set ?hl" "index hop = (ra, rb, rc, hi, hj)"
      by (auto simp: hop_ind_def)
    then show ?thesis
      using assms(1) by (auto simp: valid_cell_def hop_j_def orb_pos_def num_orb_def)
  qed
  have loop: "reshape_orb_loop conv_mat origin delta pos_tol (orb_pos prim_cell) (hop_eng prim_cell)
                ?pcs ?sc ?rop (enumerate 0 (hop_ind prim_cell)) [0..<length ?pcs] (cell ?st)
        = Inr ((cell ?st)\<lparr>hopping_list := hopping_list (cell ?st)
              @ concat (map (\<lambda>id_sc_i. concat (map
                   (hop_entries conv_mat origin delta pos_tol (orb_pos prim_cell) (hop_eng prim_cell)
                      ?pcs ?sc ?rop id_sc_i (?pcs ! id_sc_i)) (enumerate 0 (hop_ind prim_cell))))
                  [0..<length ?pcs])\<rparr>)"
    using look hj by (intro reshape_orb_loop_closed) auto
  have en: "enumerate 0 (hop_ind prim_cell) = map (\<lambda>h. (h, index (?hl ! h))) [0..<length ?hl]"
    by (simp add: enumerate_nth hop_ind_def)
  have inner: "concat (map (hop_entries conv_mat origin delta pos_tol (orb_pos prim_cell)
                   (hop_eng prim_cell) ?pcs ?sc ?rop k (?pcs ! k)) (enumerate 0 (hop_ind prim_cell)))
        = concat (map (\<lambda>h.
            if hop_i (?hl ! h) = rid_orb (?pcs ! k)
            then map (\<lambda>(id_sc_j, id_pc_j).
                   mk_hop (hop_res_rn prim_cell conv_mat origin delta (?pcs ! k) (?hl ! h))
                     k id_sc_j (hopping.energy (?hl ! h)))
               (hop_matches prim_cell conv_mat origin delta pos_tol ?pcs (?pcs ! k) (?hl ! h))
            else []) [0..<length ?hl])"
    if "k < length ?pcs" for k
  proof -
    have P: "hop_entries conv_mat origin delta pos_tol (orb_pos prim_cell) (hop_eng prim_cell) ?pcs ?sc
            ?rop k (?pcs ! k) (h, index (?hl ! h))
          = (if hop_i (?hl ! h) = rid_orb (?pcs ! k)
            then map (\<lambda>(id_sc_j, id_pc_j).
                   mk_hop (hop_res_rn prim_cell conv_mat origin delta (?pcs ! k) (?hl ! h))
                     k id_sc_j (hopping.energy (?hl ! h)))
               (hop_matches prim_cell conv_mat origin delta pos_tol ?pcs (?pcs ! k) (?hl ! h))
            else [])" if h: "h < length ?hl" for h
    proof -
      have "hop_j (?hl ! h) < num_orb prim_cell"
        using assms(1) h by (simp add: valid_cell_def)
      from hop_entries_closed [OF d \<open>k < length ?pcs\<close> this,
          of conv_mat origin delta pos_tol "hop_eng prim_cell" h]
      show ?thesis using h by (simp only: hop_eng_def nth_map)
    qed
    have "map (hop_entries conv_mat origin delta pos_tol (orb_pos prim_cell)
                   (hop_eng prim_cell) ?pcs ?sc ?rop k (?pcs ! k)) (enumerate 0 (hop_ind prim_cell))
        = map (\<lambda>h.
            if hop_i (?hl ! h) = rid_orb (?pcs ! k)
            then map (\<lambda>(id_sc_j, id_pc_j).
                   mk_hop (hop_res_rn prim_cell conv_mat origin delta (?pcs ! k) (?hl ! h))
                     k id_sc_j (hopping.energy (?hl ! h)))
               (hop_matches prim_cell conv_mat origin delta pos_tol ?pcs (?pcs ! k) (?hl ! h))
            else []) [0..<length ?hl]"
      unfolding en map_map
      by (rule map_cong [OF refl]) (simp only: o_apply P atLeastLessThan_iff set_upt)
    then show ?thesis by (rule arg_cong)
  qed
  have hops: "concat (map (\<lambda>id_sc_i. concat (map
                   (hop_entries conv_mat origin delta pos_tol (orb_pos prim_cell) (hop_eng prim_cell)
                      ?pcs ?sc ?rop id_sc_i (?pcs ! id_sc_i)) (enumerate 0 (hop_ind prim_cell))))
                  [0..<length ?pcs])
        = reshape_hoppings prim_cell conv_mat origin delta pos_tol ?pcs"
    unfolding reshape_hoppings_concat
    by (intro arg_cong [where f = concat] map_cong refl inner) simp
  have "reshape_core prim_cell lat_frac conv_mat origin delta pos_tol
        = (case reshape_orb_loop conv_mat origin delta pos_tol (orb_pos prim_cell) (hop_eng prim_cell)
                ?pcs ?sc ?rop (enumerate 0 (hop_ind prim_cell)) [0..<length ?pcs] (cell ?st) of
             Inl err \<Rightarrow> Inl err
           | Inr res_cell' \<Rightarrow> Inr (subtract_delta delta res_cell'))"
    using assms(2) by (simp add: reshape_core_def Let_def st parts)
  also have "\<dots> = Inr (subtract_delta delta ((cell ?st)\<lparr>hopping_list := hopping_list (cell ?st)
              @ reshape_hoppings prim_cell conv_mat origin delta pos_tol ?pcs\<rparr>))"
    by (simp only: loop hops sum.case)
  also have "\<dots> = Inr (reshape_result prim_cell lat_frac conv_mat origin delta pos_tol)"
    by (simp add: subtract_delta_def replicas_of_def c0 reshape_result_def Let_def comp_def)
  finally show ?thesis .
qed

lemma reshape_prim_cell_closed:
  assumes "valid_cell prim_cell" "mat3_of lat_frac = Some lf" "vec3_of origin = Some og"
    "inv3 lf = Some conv_mat" "rn_range_fits (rn_range_loop lf)"
  shows "reshape_prim_cell prim_cell lat_frac origin delta pos_tol
         = Inr (reshape_result prim_cell lf conv_mat og delta pos_tol)"
  using assms by (simp add: reshape_prim_cell_def reshape_core_closed)

lemma norm3_le_iff:
  "norm3 (x, y, z) \<le> t \<longleftrightarrow> 0 \<le> t \<and> x * x + y * y + z * z \<le> t * t"
proof -
  have nn: "0 \<le> x * x + y * y + z * z" by simp
  show ?thesis
  proof
    assume le: "norm3 (x, y, z) \<le> t"
    have s0: "0 \<le> sqrt (x * x + y * y + z * z)" using nn by simp
    have "sqrt (x * x + y * y + z * z) \<le> t" using le by (simp add: norm3_def)
    with s0 have t: "0 \<le> t" by linarith
    from le have "(sqrt (x * x + y * y + z * z))\<^sup>2 \<le> t\<^sup>2"
      by (intro power_mono) (simp_all add: norm3_def nn)
    then show "0 \<le> t \<and> x * x + y * y + z * z \<le> t * t"
      using t nn by (simp add: power2_eq_square)
  next
    assume "0 \<le> t \<and> x * x + y * y + z * z \<le> t * t"
    then show "norm3 (x, y, z) \<le> t"
      by (simp add: norm3_def real_le_lsqrt power2_eq_square)
  qed
qed

lemma valid_line_cell: "valid_cell line_cell"
  by (simp add: valid_cell_def line_cell_def num_orb_def mk_hop_def hop_i_def hop_j_def)

lemma kept_line: "kept_ids line_cell ((1/2, 0, 0), (0, 1, 0), (0, 0, 1)) (0, 0, 0) default_delta
    (rn_range_pad (rn_range_loop ((2, 0, 0), (0, 1, 0), (0, 0, 1)))) = [(0, 0, 0, 0), (1, 0, 0, 0)]"
  by (simp add: kept_ids_def rn_range_pad_def rn_range_loop_def rn_range_step_def sum_vec_def
      mat_row_def vadd_def vsub_def wrap32_def line_cell_def num_orb_def res_pos_of_def
      of_int3_def matmul_def vshift_def get_cell_index_def default_delta_def upto_rec1)

lemma map_filter_pairs:
  "map (\<lambda>(j, rid). f j rid) (filter (\<lambda>(j, rid). A rid \<and> B rid) E)
   = [f j rid. (j, rid) \<leftarrow> E, A rid, B rid]"
  by (induction E) (auto split: if_splits)

lemma reshape_hoppings_comprehension:
  "reshape_hoppings prim_cell conv_mat origin delta pos_tol pcs =
     [mk_hop (hop_res_rn prim_cell conv_mat origin delta id_pc_i hop) id_sc_i id_sc_j
        (hopping.energy hop).
        (id_sc_i, id_pc_i) \<leftarrow> enumerate 0 pcs,
        hop \<leftarrow> hopping_list prim_cell, hop_i hop = rid_orb id_pc_i,
        (id_sc_j, id_pc_j) \<leftarrow> enumerate 0 pcs, rid_orb id_pc_j = hop_j hop,
        norm3 (vsub (position (kept_orbital prim_cell conv_mat origin delta id_pc_j))
                 (hop_wrapped prim_cell conv_mat origin delta id_pc_i hop)) \<le> pos_tol]"
  unfolding reshape_hoppings_def hop_matches_def
  by (simp only: map_filter_pairs)

text \<open>
  Claim C10. For a valid model and a 3\<times>3 invertible basis, the hoppings of the reshaped
  model are exactly these, in this order: for every kept orbital \<open>id_sc_i\<close> (a copy
  \<open>id_pc_i\<close> of some original orbital), every original hopping leaving that original
  orbital, and every kept copy \<open>id_pc_j\<close> of the hopping's destination orbital whose
  (nudged) position lies within \<open>pos_tol\<close> of the wrapped transformed destination, one
  entry from \<open>id_sc_i\<close> to \<open>id_sc_j\<close> with the wrapped cell offset and the original
  energy. The candidates are the kept copies of the destination orbital; one original
  hopping yields as many entries per source as there are candidates within the tolerance.
\<close>

theorem reshape_prim_cell_entry_per_match:
  assumes "valid_cell prim_cell" "mat3_of lat_frac = Some lf" "vec3_of origin = Some og"
    "inv3 lf = Some conv_mat" "rn_range_fits (rn_range_loop lf)"
    and "pcs = kept_ids prim_cell conv_mat og delta (rn_range_pad (rn_range_loop lf))"
  shows "\<exists>res. reshape_prim_cell prim_cell lat_frac origin delta pos_tol = Inr res
     \<and> length (orbital_list res) = length pcs
     \<and> hopping_list res =
         [mk_hop (hop_res_rn prim_cell conv_mat og delta id_pc_i hop) id_sc_i id_sc_j
            (hopping.energy hop).
          (id_sc_i, id_pc_i) \<leftarrow> enumerate 0 pcs,
          hop \<leftarrow> hopping_list prim_cell, hop_i hop = rid_orb id_pc_i,
          (id_sc_j, id_pc_j) \<leftarrow> enumerate 0 pcs, rid_orb id_pc_j = hop_j hop,
          norm3 (vsub (position (kept_orbital prim_cell conv_mat og delta id_pc_j))
                   (hop_wrapped prim_cell conv_mat og delta id_pc_i hop)) \<le> pos_tol]"
proof -
  let ?res = "reshape_result prim_cell lf conv_mat og delta pos_tol"
  have run: "reshape_prim_cell prim_cell lat_frac origin delta pos_tol = Inr ?res"
    using assms(1-5) by (rule reshape_prim_cell_closed)
  have len: "length (orbital_list ?res) = length pcs"
    by (simp add: reshape_result_def Let_def assms(6))
  have hops: "hopping_list ?res = reshape_hoppings prim_cell conv_mat og delta pos_tol pcs"
    by (simp add: reshape_result_def Let_def assms(6))
  show ?thesis
    using run len hops by (simp only: reshape_hoppings_comprehension) blast
qed

lemma line_basis:
  "mat3_of [[2, 0, 0], [0, 1, 0], [0, 0, 1]] = Some ((2, 0, 0), (0, 1, 0), (0, 0, 1))"
  "vec3_of [0, 0, 0] = Some (0, 0, 0)"
  "inv3 ((2, 0, 0), (0, 1, 0), (0, 0, 1)) = Some ((1/2, 0, 0), (0, 1, 0), (0, 0, 1))"
  "rn_range_fits (rn_range_loop ((2, 0, 0), (0, 1, 0), (0, 0, 1)))"
  by (simp_all add: mat3_of_def vec3_of_def inv3_def det3_def rn_range_fits_def rn_range_loop_def
      rn_range_step_def sum_vec_def mat_row_def vadd_def vsub_def fits_int32_def)

theorem reshape_prim_cell_entry_per_match_witness:
  "valid_cell line_cell
   \<and> mat3_of [[2, 0, 0], [0, 1, 0], [0, 0, 1]] = Some ((2, 0, 0), (0, 1, 0), (0, 0, 1))
   \<and> vec3_of [0, 0, 0] = Some (0, 0, 0)
   \<and> inv3 ((2, 0, 0), (0, 1, 0), (0, 0, 1)) = Some ((1/2, 0, 0), (0, 1, 0), (0, 0, 1))
   \<and> rn_range_fits (rn_range_loop ((2, 0, 0), (0, 1, 0), (0, 0, 1)))
   \<and> (\<exists>res. reshape_prim_cell line_cell [[2, 0, 0], [0, 1, 0], [0, 0, 1]] [0, 0, 0] default_delta 1
               = Inr res
        \<and> length (orbital_list res) = 2
        \<and> hopping_list res = [mk_hop (0, 0, 0) 0 0 1, mk_hop (0, 0, 0) 0 1 1,
                               mk_hop (1, 0, 0) 1 0 1, mk_hop (1, 0, 0) 1 1 1])"
proof -
  from reshape_prim_cell_entry_per_match [OF valid_line_cell line_basis kept_line [symmetric], of 1]
  obtain res where res:
    "reshape_prim_cell line_cell [[2, 0, 0], [0, 1, 0], [0, 0, 1]] [0, 0, 0] default_delta 1 = Inr res"
    "length (orbital_list res) = length [(0, 0, 0, 0 :: nat), (1 :: int, 0 :: int, 0 :: int, 0)]"
    "hopping_list res =
         [mk_hop (hop_res_rn line_cell ((1/2, 0, 0), (0, 1, 0), (0, 0, 1)) (0, 0, 0) default_delta
                    id_pc_i hop) id_sc_i id_sc_j (hopping.energy hop).
          (id_sc_i, id_pc_i) \<leftarrow> enumerate 0 [(0, 0, 0, 0), (1, 0, 0, 0)],
          hop \<leftarrow> hopping_list line_cell, hop_i hop = rid_orb id_pc_i,
          (id_sc_j, id_pc_j) \<leftarrow> enumerate 0 [(0, 0, 0, 0), (1, 0, 0, 0)], rid_orb id_pc_j = hop_j hop,
          norm3 (vsub (position (kept_orbital line_cell ((1/2, 0, 0), (0, 1, 0), (0, 0, 1)) (0, 0, 0)
                                   default_delta id_pc_j))
                   (hop_wrapped line_cell ((1/2, 0, 0), (0, 1, 0), (0, 0, 1)) (0, 0, 0) default_delta
                      id_pc_i hop)) \<le> 1]"
    by blast
  have "hopping_list res = [mk_hop (0, 0, 0) 0 0 1, mk_hop (0, 0, 0) 0 1 1,
                            mk_hop (1, 0, 0) 1 0 1, mk_hop (1, 0, 0) 1 1 1]"
    unfolding res(3)
    by (simp add: line_cell_def mk_hop_def hop_i_def hop_j_def rid_orb_def kept_orbital_def
        hop_wrapped_def hop_res_rn_def hop_res_pos_def res_pos_of_def of_int3_def matmul_def
        vadd_def vsub_def vshift_def get_cell_index_def default_delta_def norm3_le_iff)
  then show ?thesis
    using valid_line_cell line_basis res(1,2) by simp
qed

subsection \<open>Which orbitals are kept\<close>

lemma get_cell_index_zero: "get_cell_index v = (0, 0, 0) \<longleftrightarrow> in_unit_cube v"
  by (cases v) (auto simp: get_cell_index_def in_unit_cube_def floor_eq_iff)

lemma kept_ids_cube:
  "kept_ids prim_cell conv_mat origin delta ((lo0, hi0), (lo1, hi1), (lo2, hi2)) =
     [(i_a, i_b, i_c, i_o).
        i_a \<leftarrow> [lo0..hi0], i_b \<leftarrow> [lo1..hi1], i_c \<leftarrow> [lo2..hi2], i_o \<leftarrow> [0..<num_orb prim_cell],
        in_unit_cube (res_pos_of conv_mat origin delta (i_a, i_b, i_c)
                        (position (orbital_list prim_cell ! i_o)))]"
  by (simp add: kept_ids_def get_cell_index_zero)

text \<open>
  The search range in closed form. On every axis the lower bound is the least of zero and
  the floors of the three sums of two rows of the basis, the upper bound the greatest of
  zero and their ceilings; the sum of all three rows, the far corner of the new cell, is
  not among them, and neither \<open>origin\<close> nor the orbital positions enter.
\<close>

lemma rn_range_loop_explicit:
  "rn_range_loop ((a0, a1, a2), (b0, b1, b2), (c0, c1, c2)) =
     ((min (min (min 0 \<lfloor>b0 + c0\<rfloor>) \<lfloor>a0 + c0\<rfloor>) \<lfloor>a0 + b0\<rfloor>,
       max (max (max 0 \<lceil>b0 + c0\<rceil>) \<lceil>a0 + c0\<rceil>) \<lceil>a0 + b0\<rceil>),
      (min (min (min 0 \<lfloor>b1 + c1\<rfloor>) \<lfloor>a1 + c1\<rfloor>) \<lfloor>a1 + b1\<rfloor>,
       max (max (max 0 \<lceil>b1 + c1\<rceil>) \<lceil>a1 + c1\<rceil>) \<lceil>a1 + b1\<rceil>),
      (min (min (min 0 \<lfloor>b2 + c2\<rfloor>) \<lfloor>a2 + c2\<rfloor>) \<lfloor>a2 + b2\<rfloor>,
       max (max (max 0 \<lceil>b2 + c2\<rceil>) \<lceil>a2 + c2\<rceil>) \<lceil>a2 + b2\<rceil>))"
  by (simp add: rn_range_loop_def rn_range_step_def sum_vec_def mat_row_def vadd_def vsub_def)

lemma rn_range_fractional:
  "rn_range_pad (rn_range_loop ((1/2, 0, 0), (0, - 1/2, 0), (0, 0, 1))) = ((- 1, 2), (- 2, 1), (- 1, 2))"
  by (simp add: rn_range_loop_explicit rn_range_pad_def wrap32_def ceiling_eq_iff)

text \<open>
  What the orbital loops deliver: the copies \<open>rn + position\<close>, for the translations
  \<open>rn\<close> of the padded search range and all original orbitals, whose image under the
  basis conversion, less \<open>origin\<close> and nudged by \<open>delta\<close>, lies in the half-open unit
  cube; each keeps its original's energy, and its position is the nudged image less
  \<open>delta\<close>.
\<close>

lemma reshape_orbitals_in_range:
  assumes "valid_cell prim_cell" "mat3_of lat_frac = Some lf" "vec3_of origin = Some og"
    "inv3 lf = Some conv_mat" "rn_range_fits (rn_range_loop lf)"
  shows "\<exists>res. reshape_prim_cell prim_cell lat_frac origin delta pos_tol = Inr res
     \<and> orbital_list res =
         (case rn_range_pad (rn_range_loop lf) of ((lo0, hi0), (lo1, hi1), (lo2, hi2)) \<Rightarrow>
            [\<lparr>position = vshift (res_pos_of conv_mat og delta (i_a, i_b, i_c)
                                   (position (orbital_list prim_cell ! i_o))) (- delta),
              energy = orbital.energy (orbital_list prim_cell ! i_o)\<rparr>.
             i_a \<leftarrow> [lo0..hi0], i_b \<leftarrow> [lo1..hi1], i_c \<leftarrow> [lo2..hi2],
             i_o \<leftarrow> [0..<num_orb prim_cell],
             in_unit_cube (res_pos_of conv_mat og delta (i_a, i_b, i_c)
                             (position (orbital_list prim_cell ! i_o)))])"
proof -
  obtain lo0 hi0 lo1 hi1 lo2 hi2
    where rng: "rn_range_pad (rn_range_loop lf) = ((lo0, hi0), (lo1, hi1), (lo2, hi2))"
    by (cases "rn_range_pad (rn_range_loop lf)") auto
  let ?res = "reshape_result prim_cell lf conv_mat og delta pos_tol"
  have run: "reshape_prim_cell prim_cell lat_frac origin delta pos_tol = Inr ?res"
    using assms by (rule reshape_prim_cell_closed)
  have "orbital_list ?res =
         [\<lparr>position = vshift (res_pos_of conv_mat og delta (i_a, i_b, i_c)
                                (position (orbital_list prim_cell ! i_o))) (- delta),
           energy = orbital.energy (orbital_list prim_cell ! i_o)\<rparr>.
          i_a \<leftarrow> [lo0..hi0], i_b \<leftarrow> [lo1..hi1], i_c \<leftarrow> [lo2..hi2],
          i_o \<leftarrow> [0..<num_orb prim_cell],
          in_unit_cube (res_pos_of conv_mat og delta (i_a, i_b, i_c)
                          (position (orbital_list prim_cell ! i_o)))]"
    by (simp add: reshape_result_def Let_def rng kept_ids_cube map_concat comp_def
        kept_orbital_def if_distrib [of "map _"] cong: if_cong)
  then show ?thesis
    using run by (simp add: rng)
qed

lemma valid_skew_cell: "valid_cell skew_cell"
  by (simp add: valid_cell_def skew_cell_def)

lemma skew_basis_facts:
  "mat3_of skew_basis = Some ((4, 0, 0), (4, 1, 0), (4, 0, 1))"
  "vec3_of [0, 0, 0] = Some (0, 0, 0)"
  "inv3 ((4, 0, 0), (4, 1, 0), (4, 0, 1)) = Some ((1/4, 0, 0), (- 1, 1, 0), (- 1, 0, 1))"
  "rn_range_fits (rn_range_loop ((4, 0, 0), (4, 1, 0), (4, 0, 1)))"
  "rn_range_pad (rn_range_loop ((4, 0, 0), (4, 1, 0), (4, 0, 1))) = ((- 1, 9), (- 1, 2), (- 1, 2))"
  by (simp_all add: skew_basis_def mat3_of_def vec3_of_def inv3_def det3_def rn_range_fits_def
      rn_range_loop_def rn_range_step_def sum_vec_def mat_row_def vadd_def vsub_def fits_int32_def
      rn_range_pad_def wrap32_def)

lemma kept_skew:
  "kept_ids skew_cell ((1/4, 0, 0), (- 1, 1, 0), (- 1, 0, 1)) (0, 0, 0) default_delta
     ((- 1, 9), (- 1, 2), (- 1, 2)) = [(7, 0, 0, 0), (8, 0, 0, 0), (9, 0, 0, 0)]"
  by (simp add: kept_ids_def skew_cell_def num_orb_def res_pos_of_def
      of_int3_def matmul_def vadd_def vsub_def vshift_def get_cell_index_def default_delta_def
      upto_rec1)

text \<open>
  Claim C2. The claim asks for every copy, over all integer translations, whose image lies
  in the unit cube of the new basis, and the search range is there to reach all of them.
  With the basis \<open>(4,0,0), (4,1,0), (4,0,1)\<close>, the origin at zero, the default
  \<open>delta\<close> and one orbital at \<open>(0, 7/8, 7/8)\<close> the code does not deliver this: the
  range of the first axis is \<open>[-1, 9]\<close>, from zero and the sums of two rows, while the
  far corner of the new cell, the sum of the three rows, is \<open>(12, 1, 1)\<close>. The copy
  translated by \<open>(10, 0, 0)\<close> has its image \<open>(3/4, 7/8, 7/8)\<close> in the unit cube, and is
  not among the three orbitals of the result, where the new cell, of four times the volume,
  holds four.
\<close>

theorem reshape_prim_cell_misses_copy:
  "reshape_prim_cell skew_cell skew_basis [0, 0, 0] default_delta default_pos_tol = Inr skew_reshaped
   \<and> map position (orbital_list skew_reshaped) = [(0, 7/8, 7/8), (1/4, 7/8, 7/8), (1/2, 7/8, 7/8)]
   \<and> rn_range_pad (rn_range_loop ((4, 0, 0), (4, 1, 0), (4, 0, 1))) = ((- 1, 9), (- 1, 2), (- 1, 2))
   \<and> inv3 ((4, 0, 0), (4, 1, 0), (4, 0, 1)) = Some ((1/4, 0, 0), (- 1, 1, 0), (- 1, 0, 1))
   \<and> in_unit_cube (res_pos_of ((1/4, 0, 0), (- 1, 1, 0), (- 1, 0, 1)) (0, 0, 0) default_delta
                     (10, 0, 0) (0, 7/8, 7/8))
   \<and> vshift (res_pos_of ((1/4, 0, 0), (- 1, 1, 0), (- 1, 0, 1)) (0, 0, 0) default_delta
               (10, 0, 0) (0, 7/8, 7/8)) (- default_delta) = (3/4, 7/8, 7/8)
   \<and> (3/4, 7/8, 7/8) \<notin> set (map position (orbital_list skew_reshaped))"
proof -
  have "reshape_prim_cell skew_cell skew_basis [0, 0, 0] default_delta default_pos_tol
        = Inr (reshape_result skew_cell ((4, 0, 0), (4, 1, 0), (4, 0, 1))
                 ((1/4, 0, 0), (- 1, 1, 0), (- 1, 0, 1)) (0, 0, 0) default_delta default_pos_tol)"
    by (rule reshape_prim_cell_closed [OF valid_skew_cell skew_basis_facts(1-4)])
  also have "reshape_result skew_cell ((4, 0, 0), (4, 1, 0), (4, 0, 1))
                 ((1/4, 0, 0), (- 1, 1, 0), (- 1, 0, 1)) (0, 0, 0) default_delta default_pos_tol
             = skew_reshaped"
    unfolding reshape_result_def skew_basis_facts(5) kept_skew Let_def
    by (simp add: skew_reshaped_def reshape_hoppings_def)
       (simp add: skew_cell_def kept_orbital_def lat_cart_def unit_lat_def matmul_def res_pos_of_def
          of_int3_def vadd_def vsub_def vshift_def default_delta_def)
  finally have run: "reshape_prim_cell skew_cell skew_basis [0, 0, 0] default_delta default_pos_tol
        = Inr skew_reshaped" .
  show ?thesis
    using run skew_basis_facts(3,5)
    by (simp add: in_unit_cube_def res_pos_of_def of_int3_def matmul_def vadd_def vsub_def
        vshift_def default_delta_def skew_reshaped_def)
qed

subsection \<open>Dropped hoppings\<close>

lemma identity3_facts:
  "mat3_of identity3 = Some ((1, 0, 0), (0, 1, 0), (0, 0, 1))"
  "vec3_of [0, 0, 0] = Some (0, 0, 0)"
  "inv3 ((1, 0, 0), (0, 1, 0), (0, 0, 1)) = Some ((1, 0, 0), (0, 1, 0), (0, 0, 1))"
  "rn_range_fits (rn_range_loop ((1, 0, 0), (0, 1, 0), (0, 0, 1)))"
  "rn_range_pad (rn_range_loop ((1, 0, 0), (0, 1, 0), (0, 0, 1))) = ((- 1, 2), (- 1, 2), (- 1, 2))"
  by (simp_all add: identity3_def mat3_of_def vec3_of_def inv3_def det3_def rn_range_fits_def
      rn_range_loop_def rn_range_step_def sum_vec_def mat_row_def vadd_def vsub_def fits_int32_def
      rn_range_pad_def wrap32_def)

lemma valid_far_cells: "valid_cell far_cell" "valid_cell far_cell_bare"
  by (simp_all add: valid_cell_def far_cell_def far_cell_bare_def num_orb_def mk_hop_def
      hop_i_def hop_j_def)

lemma kept_far:
  "kept_ids far_cell ((1, 0, 0), (0, 1, 0), (0, 0, 1)) (0, 0, 0) default_delta
     ((- 1, 2), (- 1, 2), (- 1, 2)) = [(0, 0, 0, 0)]"
  "kept_ids far_cell_bare ((1, 0, 0), (0, 1, 0), (0, 0, 1)) (0, 0, 0) default_delta
     ((- 1, 2), (- 1, 2), (- 1, 2)) = [(0, 0, 0, 0)]"
  by (simp_all add: kept_ids_def far_cell_def far_cell_bare_def num_orb_def res_pos_of_def
      of_int3_def matmul_def vadd_def vsub_def vshift_def get_cell_index_def default_delta_def
      upto_rec1 upt_rec)

lemma reshape_far_cell:
  "reshape_prim_cell far_cell identity3 [0, 0, 0] default_delta default_pos_tol = Inr far_reshaped"
proof -
  let ?I = "((1, 0, 0), (0, 1, 0), (0, 0, 1)) :: mat3"
  have "reshape_result far_cell ?I ?I (0, 0, 0) default_delta default_pos_tol = far_reshaped"
    unfolding reshape_result_def identity3_facts(5) kept_far Let_def
    by (simp add: far_reshaped_def reshape_hoppings_def hop_matches_def)
       (simp add: far_cell_def kept_orbital_def lat_cart_def unit_lat_def matmul_def res_pos_of_def
          of_int3_def vadd_def vsub_def vshift_def default_delta_def mk_hop_def hop_i_def hop_j_def
          rid_orb_def)
  then show ?thesis
    by (simp add: reshape_prim_cell_closed [OF valid_far_cells(1) identity3_facts(1-4)])
qed

lemma reshape_far_cell_bare:
  "reshape_prim_cell far_cell_bare identity3 [0, 0, 0] default_delta default_pos_tol
   = Inr far_reshaped"
proof -
  let ?I = "((1, 0, 0), (0, 1, 0), (0, 0, 1)) :: mat3"
  have "reshape_result far_cell_bare ?I ?I (0, 0, 0) default_delta default_pos_tol = far_reshaped"
    unfolding reshape_result_def identity3_facts(5) kept_far Let_def
    by (simp add: far_reshaped_def reshape_hoppings_def hop_matches_def)
       (simp add: far_cell_bare_def kept_orbital_def lat_cart_def unit_lat_def matmul_def
          res_pos_of_def of_int3_def vadd_def vsub_def vshift_def default_delta_def)
  then show ?thesis
    by (simp add: reshape_prim_cell_closed [OF valid_far_cells(2) identity3_facts(1-4)])
qed

text \<open>
  Claim C8 as stated fails: the operation returns the reshaped model and nothing else. With
  the identity basis, the hopping of \<open>far_cell\<close> to its second orbital, which has no
  kept copy, is dropped; the result is the very model obtained without that hopping, where
  nothing is dropped.
\<close>

theorem reshape_prim_cell_drop_not_exposed:
  "reshape_prim_cell far_cell identity3 [0, 0, 0] default_delta default_pos_tol = Inr far_reshaped
   \<and> reshape_prim_cell far_cell_bare identity3 [0, 0, 0] default_delta default_pos_tol = Inr far_reshaped
   \<and> reshape_dropped far_cell identity3 [0, 0, 0] default_delta default_pos_tol = Some 1
   \<and> reshape_dropped far_cell_bare identity3 [0, 0, 0] default_delta default_pos_tol = Some 0"
proof -
  have 3: "reshape_dropped far_cell identity3 [0, 0, 0] default_delta default_pos_tol = Some 1"
    by (simp add: reshape_dropped_def identity3_facts kept_far dropped_hoppings_def)
       (simp add: far_cell_def mk_hop_def hop_i_def hop_j_def rid_orb_def hop_matches_def)
  have 4: "reshape_dropped far_cell_bare identity3 [0, 0, 0] default_delta default_pos_tol = Some 0"
    by (simp add: reshape_dropped_def identity3_facts kept_far dropped_hoppings_def)
       (simp add: far_cell_bare_def)
  show ?thesis using reshape_far_cell reshape_far_cell_bare 3 4 by simp
qed

lemma hopping_list_irrelevant:
  "kept_ids (c\<lparr>hopping_list := hs\<rparr>) conv_mat origin delta rng = kept_ids c conv_mat origin delta rng"
  "kept_orbital (c\<lparr>hopping_list := hs\<rparr>) conv_mat origin delta rid = kept_orbital c conv_mat origin delta rid"
  "hop_wrapped (c\<lparr>hopping_list := hs\<rparr>) conv_mat origin delta rid hop = hop_wrapped c conv_mat origin delta rid hop"
  "hop_res_rn (c\<lparr>hopping_list := hs\<rparr>) conv_mat origin delta rid hop = hop_res_rn c conv_mat origin delta rid hop"
  "hop_matches (c\<lparr>hopping_list := hs\<rparr>) conv_mat origin delta pos_tol pcs rid hop
     = hop_matches c conv_mat origin delta pos_tol pcs rid hop"
  by (simp_all add: kept_ids_def kept_orbital_def hop_wrapped_def hop_res_rn_def hop_res_pos_def
      hop_matches_def num_orb_def)

lemma reshape_hoppings_drop:
  assumes "hopping_list prim_cell = hs1 @ hop # hs2"
    and "\<forall>id_pc_i\<in>set pcs. hop_i hop = rid_orb id_pc_i \<longrightarrow>
           hop_matches prim_cell conv_mat origin delta pos_tol pcs id_pc_i hop = []"
  shows "reshape_hoppings (prim_cell\<lparr>hopping_list := hs1 @ hs2\<rparr>) conv_mat origin delta pos_tol pcs
         = reshape_hoppings prim_cell conv_mat origin delta pos_tol pcs"
proof -
  let ?G = "\<lambda>id_sc_i id_pc_i hop.
      if hop_i hop = rid_orb id_pc_i
      then map (\<lambda>(id_sc_j, id_pc_j).
                  mk_hop (hop_res_rn prim_cell conv_mat origin delta id_pc_i hop) id_sc_i id_sc_j
                    (hopping.energy hop))
             (hop_matches prim_cell conv_mat origin delta pos_tol pcs id_pc_i hop)
      else []"
  have none: "?G k rid hop = []" if "(k, rid) \<in> set (enumerate 0 pcs)" for k rid
  proof -
    have "rid \<in> set pcs" using that by (auto simp: in_set_enumerate_eq)
    then show ?thesis using assms(2) by auto
  qed
  have "(case x of (k, rid) \<Rightarrow> concat (map (?G k rid) (hs1 @ hs2)))
        = (case x of (k, rid) \<Rightarrow> concat (map (?G k rid) (hs1 @ hop # hs2)))"
    if "x \<in> set (enumerate 0 pcs)" for x
  proof -
    obtain k rid where x: "x = (k, rid)" by (cases x)
    show ?thesis using none [of k rid] that by (simp add: x)
  qed
  then have "map (\<lambda>(k, rid). concat (map (?G k rid) (hs1 @ hs2))) (enumerate 0 pcs)
        = map (\<lambda>(k, rid). concat (map (?G k rid) (hs1 @ hop # hs2))) (enumerate 0 pcs)"
    by (rule map_cong [OF refl])
  then have "concat (map (\<lambda>(k, rid). concat (map (?G k rid) (hs1 @ hs2))) (enumerate 0 pcs))
        = concat (map (\<lambda>(k, rid). concat (map (?G k rid) (hs1 @ hop # hs2))) (enumerate 0 pcs))"
    by (rule arg_cong)
  then show ?thesis
    unfolding reshape_hoppings_def hopping_list_irrelevant assms(1) by simp
qed

text \<open>
  Claim C8, as amended. A hopping whose destination matches no kept orbital, from any kept
  copy of its source orbital, is discarded without an error and without a trace: the
  operation returns a model, and it is the model it returns for the same input without
  that hopping. No count of dropped hoppings is kept or returned.
\<close>

theorem reshape_prim_cell_silent_drop:
  assumes "valid_cell prim_cell" "mat3_of lat_frac = Some lf" "vec3_of origin = Some og"
    "inv3 lf = Some conv_mat" "rn_range_fits (rn_range_loop lf)"
    and "pcs = kept_ids prim_cell conv_mat og delta (rn_range_pad (rn_range_loop lf))"
    and "hopping_list prim_cell = hs1 @ hop # hs2"
    and "\<forall>id_pc_i\<in>set pcs. hop_i hop = rid_orb id_pc_i \<longrightarrow>
           hop_matches prim_cell conv_mat og delta pos_tol pcs id_pc_i hop = []"
  shows "\<exists>res. reshape_prim_cell prim_cell lat_frac origin delta pos_tol = Inr res
     \<and> reshape_prim_cell (prim_cell\<lparr>hopping_list := hs1 @ hs2\<rparr>) lat_frac origin delta pos_tol
         = Inr res"
proof -
  let ?prim' = "prim_cell\<lparr>hopping_list := hs1 @ hs2\<rparr>"
  have valid': "valid_cell ?prim'"
    using assms(1,7) by (auto simp: valid_cell_def num_orb_def)
  have 1: "reshape_prim_cell prim_cell lat_frac origin delta pos_tol
           = Inr (reshape_result prim_cell lf conv_mat og delta pos_tol)"
    using assms(1-5) by (rule reshape_prim_cell_closed)
  have 2: "reshape_prim_cell ?prim' lat_frac origin delta pos_tol
           = Inr (reshape_result ?prim' lf conv_mat og delta pos_tol)"
    using valid' assms(2-5) by (rule reshape_prim_cell_closed)
  have "reshape_result ?prim' lf conv_mat og delta pos_tol
        = reshape_result prim_cell lf conv_mat og delta pos_tol"
    using reshape_hoppings_drop [OF assms(7,8)]
    by (simp add: reshape_result_def Let_def assms(6) hopping_list_irrelevant)
  then show ?thesis using 1 2 by simp
qed

theorem reshape_prim_cell_silent_drop_witness:
  "valid_cell far_cell
   \<and> mat3_of identity3 = Some ((1, 0, 0), (0, 1, 0), (0, 0, 1))
   \<and> vec3_of [0, 0, 0] = Some (0, 0, 0)
   \<and> inv3 ((1, 0, 0), (0, 1, 0), (0, 0, 1)) = Some ((1, 0, 0), (0, 1, 0), (0, 0, 1))
   \<and> rn_range_fits (rn_range_loop ((1, 0, 0), (0, 1, 0), (0, 0, 1)))
   \<and> hopping_list far_cell = [] @ mk_hop (0, 0, 0) 0 1 1 # []
   \<and> hop_matches far_cell ((1, 0, 0), (0, 1, 0), (0, 0, 1)) (0, 0, 0) default_delta default_pos_tol
        [(0, 0, 0, 0)] (0, 0, 0, 0) (mk_hop (0, 0, 0) 0 1 1) = []
   \<and> (\<exists>res. reshape_prim_cell far_cell identity3 [0, 0, 0] default_delta default_pos_tol = Inr res
        \<and> reshape_prim_cell (far_cell\<lparr>hopping_list := [] @ []\<rparr>) identity3 [0, 0, 0]
             default_delta default_pos_tol = Inr res)"
proof -
  let ?I = "((1, 0, 0), (0, 1, 0), (0, 0, 1)) :: mat3"
  have pcs: "[(0, 0, 0, 0)] = kept_ids far_cell ?I (0, 0, 0) default_delta
               (rn_range_pad (rn_range_loop ?I))"
    by (simp only: identity3_facts(5) kept_far)
  have hl: "hopping_list far_cell = [] @ mk_hop (0, 0, 0) 0 1 1 # []"
    by (simp add: far_cell_def)
  have m: "hop_matches far_cell ?I (0, 0, 0) default_delta default_pos_tol
        [(0, 0, 0, 0)] (0, 0, 0, 0) (mk_hop (0, 0, 0) 0 1 1) = []"
    by (simp add: hop_matches_def mk_hop_def hop_j_def rid_orb_def)
  then have none: "\<forall>id_pc_i\<in>set [(0, 0, 0, 0)]. hop_i (mk_hop (0, 0, 0) 0 1 1) = rid_orb id_pc_i \<longrightarrow>
           hop_matches far_cell ?I (0, 0, 0) default_delta default_pos_tol [(0, 0, 0, 0)] id_pc_i
             (mk_hop (0, 0, 0) 0 1 1) = []"
    by simp
  show ?thesis
    using valid_far_cells(1) identity3_facts(1-4) hl m
      reshape_prim_cell_silent_drop [OF valid_far_cells(1) identity3_facts(1-4) pcs hl none]
    by blast
qed

subsection \<open>The identity basis\<close>

text \<open>
  Claim C7. On a valid model with an orbital outside the home cell the code does not keep
  the counts. For the identity basis the search range is \<open>[-1, 2]\<close> on every axis; the
  second orbital of \<open>far_cell\<close>, at \<open>(3, 0, 0)\<close>, falls into the unit cube with the
  translation \<open>(-3, 0, 0)\<close>, which the range does not hold, so the orbital is lost, and
  the hopping to it with it: two orbitals and one hopping go in, one orbital and no hopping
  come out.
\<close>

theorem reshape_prim_cell_identity_loses_orbital:
  "reshape_prim_cell far_cell identity3 [0, 0, 0] default_delta default_pos_tol = Inr far_reshaped
   \<and> num_orb far_cell = 2 \<and> num_orb far_reshaped = 1
   \<and> length (hopping_list far_cell) = 1 \<and> length (hopping_list far_reshaped) = 0
   \<and> rn_range_pad (rn_range_loop ((1, 0, 0), (0, 1, 0), (0, 0, 1))) = ((- 1, 2), (- 1, 2), (- 1, 2))
   \<and> in_unit_cube (res_pos_of ((1, 0, 0), (0, 1, 0), (0, 0, 1)) (0, 0, 0) default_delta
                     (- 3, 0, 0) (3, 0, 0))"
  using reshape_far_cell identity3_facts(5)
  by (simp add: far_cell_def far_reshaped_def num_orb_def in_unit_cube_def res_pos_of_def
      of_int3_def matmul_def vadd_def vsub_def vshift_def default_delta_def)

end
